theory Spec2Isabelle
  imports Complex_Main
begin

section \<open>Python values shared by the three scripts\<close>

text \<open>
  The repository holds three scripts: \<^verbatim>\<open>bigram.py\<close> (n-gram counts and smoothing),
  \<^verbatim>\<open>tagging.py\<close> (part-of-speech model and its decoder) and \<^verbatim>\<open>viterbi.py\<close> (matrix
  Viterbi). Each script is one module-level block; the model splits it at its comment
  banners into functions that pass the module's variables explicitly.

  Probabilities are modelled in exact arithmetic: a division \<^verbatim>\<open>a / b\<close> of two counts is the
  rational number a/b, and raises \<^verbatim>\<open>ZeroDivisionError\<close> when b is 0. The double that Python
  stores for it is \<open>double_of\<close> of that rational (section Double precision); a property
  that depends on the rounding is stated with \<open>double_of\<close>. Strings are lists of ASCII
  characters.
\<close>

datatype error = KeyError | ValueError | TypeError | IndexError | ZeroDivisionError | NameError

text \<open>Sequencing of computations that may raise.\<close>

definition bind :: "error + 'a \<Rightarrow> ('a \<Rightarrow> error + 'b) \<Rightarrow> error + 'b" where
  "bind m f = (case m of Inl e \<Rightarrow> Inl e | Inr x \<Rightarrow> f x)"

text \<open>
  A Python \<^verbatim>\<open>dict\<close> keeps its keys in insertion order, and two of the scripts take
  \<^verbatim>\<open>max\<close> over a dict, which returns the first maximal key in that order. A dict is
  therefore an association list with distinct keys: \<open>dict_update\<close> overwrites the value of
  a present key in place and appends an absent key at the end.
\<close>

type_synonym ('k, 'v) dict = "('k \<times> 'v) list"

primrec dict_update :: "'k \<Rightarrow> 'v \<Rightarrow> ('k, 'v) dict \<Rightarrow> ('k, 'v) dict" where
  "dict_update k v [] = [(k, v)]"
| "dict_update k v (e # d) = (if fst e = k then (k, v) # d else e # dict_update k v d)"

text \<open>\<^verbatim>\<open>d[k]\<close>: the value, or \<^verbatim>\<open>KeyError\<close>.\<close>

definition dict_get :: "('k, 'v) dict \<Rightarrow> 'k \<Rightarrow> error + 'v" where
  "dict_get d k = (case map_of d k of None \<Rightarrow> Inl KeyError | Some v \<Rightarrow> Inr v)"

text \<open>\<^verbatim>\<open>if k in d: d[k] += 1 else: d.update({k: 1})\<close>\<close>

definition incr :: "'k \<Rightarrow> ('k, nat) dict \<Rightarrow> ('k, nat) dict" where
  "incr k d = (case map_of d k of Some c \<Rightarrow> dict_update k (c + 1) d | None \<Rightarrow> dict_update k 1 d)"

text \<open>
  True division of two non-negative integers, in exact arithmetic: the quotient before
  Python rounds it to a double.
\<close>

definition py_div :: "nat \<Rightarrow> nat \<Rightarrow> error + rat" where
  "py_div a b = (if b = 0 then Inl ZeroDivisionError else Inr (of_nat a / of_nat b))"

text \<open>
  \<^verbatim>\<open>str.split()\<close> without arguments: the maximal runs of non-whitespace characters, in
  order (\<open>split_ws cur s\<close> carries the run being read, reversed). \<^verbatim>\<open>str.lower()\<close> on the
  ASCII letters.
\<close>

definition is_space :: "char \<Rightarrow> bool" where
  "is_space c = (c \<in> set [CHR '' '', CHR 0x09, CHR 0x0A, CHR 0x0B, CHR 0x0C, CHR 0x0D,
                           CHR 0x1C, CHR 0x1D, CHR 0x1E, CHR 0x1F])"

fun split_ws :: "string \<Rightarrow> string \<Rightarrow> string list" where
  "split_ws cur [] = (if cur = [] then [] else [rev cur])"
| "split_ws cur (c # s) =
     (if is_space c then (if cur = [] then split_ws [] s else rev cur # split_ws [] s)
      else split_ws (c # cur) s)"

definition split :: "string \<Rightarrow> string list" where
  "split s = split_ws [] s"

definition lower_char :: "char \<Rightarrow> char" where
  "lower_char c = (let n = (of_char c :: nat) in if 65 \<le> n \<and> n \<le> 90 then char_of (n + 32) else c)"

definition lower :: "string \<Rightarrow> string" where
  "lower s = map lower_char s"

text \<open>\<^verbatim>\<open>t.split("_")\<close>: the fields between underscores (always at least one field).\<close>

fun split_us :: "string \<Rightarrow> string \<Rightarrow> string list" where
  "split_us cur [] = [rev cur]"
| "split_us cur (c # s) =
     (if c = CHR ''_'' then rev cur # split_us [] s else split_us (c # cur) s)"

definition split_underscore :: "string \<Rightarrow> string list" where
  "split_underscore t = split_us [] t"

section \<open>bigram.py: counts\<close>

text \<open>
  The boundary markers are the integers 0 and 1, every other token is a string, so a
  symbol is one of three things and a string never equals a marker.
\<close>

datatype sym = START_OF_SENTENCE | END_OF_SENTENCE | Tok string

record counts =
  unigramCount :: "(sym, nat) dict"
  bigramCount :: "(sym \<times> sym, nat) dict"

text \<open>
  Lines 79-82: a token that is not a boundary marker is cut to \<^verbatim>\<open>t.split("_")[0]\<close>.
\<close>

fun word_portion :: "sym \<Rightarrow> sym" where
  "word_portion START_OF_SENTENCE = START_OF_SENTENCE"
| "word_portion END_OF_SENTENCE = END_OF_SENTENCE"
| "word_portion (Tok t) = Tok (hd (split_underscore t))"

text \<open>Lines 79-94: the body of the loop over one sentence; \<open>prevToken\<close> is \<^verbatim>\<open>None\<close> at first.\<close>

definition count_token :: "counts \<times> sym option \<Rightarrow> sym \<Rightarrow> counts \<times> sym option" where
  "count_token st t =
     (let token = word_portion t;
          c = fst st;
          uc = incr token (unigramCount c);
          bc = (case snd st of
                  None \<Rightarrow> bigramCount c
                | Some prevToken \<Rightarrow> incr (token, prevToken) (bigramCount c))
      in (\<lparr>unigramCount = uc, bigramCount = bc\<rparr>, Some token))"

text \<open>Line 77: the sequence the loop runs over, for the tokens of one line.\<close>

definition with_markers :: "string list \<Rightarrow> sym list" where
  "with_markers tokens = [START_OF_SENTENCE] @ map Tok tokens @ [END_OF_SENTENCE]"

definition count_tokens :: "counts \<Rightarrow> string list \<Rightarrow> counts" where
  "count_tokens c tokens = fst (foldl count_token (c, None) (with_markers tokens))"

text \<open>Lines 68-94: one line of the training file.\<close>

definition count_sentence :: "counts \<Rightarrow> string \<Rightarrow> counts" where
  "count_sentence c sentence = count_tokens c (split (lower sentence))"

definition empty_counts :: counts where
  "empty_counts = \<lparr>unigramCount = [], bigramCount = []\<rparr>"

definition train :: "string list \<Rightarrow> counts" where
  "train lines = foldl count_sentence empty_counts lines"

text \<open>
  What the invariants speak about: the count of a key (0 when absent) and, for a
  predecessor \<open>p\<close>, the sum of the counts of all bigrams \<open>(s, p)\<close>.
\<close>

definition count_of :: "('k, nat) dict \<Rightarrow> 'k \<Rightarrow> nat" where
  "count_of d k = (case map_of d k of None \<Rightarrow> 0 | Some c \<Rightarrow> c)"

definition bigram_sum :: "(sym \<times> sym, nat) dict \<Rightarrow> sym \<Rightarrow> nat" where
  "bigram_sum bc p = sum_list (map snd (filter (\<lambda>e. snd (fst e) = p) bc))"

text \<open>A loop whose body may raise: the first error ends it.\<close>

fun foldM :: "('s \<Rightarrow> 'a \<Rightarrow> error + 's) \<Rightarrow> 's \<Rightarrow> 'a list \<Rightarrow> error + 's" where
  "foldM f s [] = Inr s"
| "foldM f s (x # xs) = (case f s x of Inl e \<Rightarrow> Inl e | Inr s' \<Rightarrow> foldM f s' xs)"

section \<open>bigram.py: smoothing\<close>

datatype smoothing = NoSmoothing | AddOne | GoodTuring | AddOneFast

text \<open>
  The keys of \<^verbatim>\<open>bigramProb\<close> are the pairs \<^verbatim>\<open>(token, prevToken)\<close> and the blank entry
  \<^verbatim>\<open>(None, None)\<close>. A loop \<^verbatim>\<open>for k in d: ... d[k] ...\<close> is a loop over the entries of \<open>d\<close>.
\<close>

type_synonym bigram_key = "sym option \<times> sym option"
type_synonym prob_table = "(bigram_key, rat) dict"

text \<open>Lines 105-108, the body of the loop without smoothing.\<close>

definition none_entry :: "counts \<Rightarrow> prob_table \<Rightarrow> (sym \<times> sym) \<times> nat \<Rightarrow> error + prob_table" where
  "none_entry c bigramProb e =
     (let token = fst (fst e); prevToken = snd (fst e); bCount = snd e in
      bind (dict_get (unigramCount c) prevToken) (\<lambda>uCount.
      bind (py_div bCount uCount) (\<lambda>p.
      Inr (dict_update (Some token, Some prevToken) p bigramProb))))"

text \<open>Lines 102-111.\<close>

definition smooth_none :: "counts \<Rightarrow> error + prob_table" where
  "smooth_none c =
     bind (foldM (none_entry c) [] (bigramCount c)) (\<lambda>bigramProb.
     Inr (dict_update (None, None) 0 bigramProb))"

text \<open>Lines 121-125, with \<open>V\<close> the number of keys of \<^verbatim>\<open>unigramCount\<close>.\<close>

definition add_one_entry :: "counts \<Rightarrow> nat \<Rightarrow> prob_table \<Rightarrow> (sym \<times> sym) \<times> nat \<Rightarrow> error + prob_table" where
  "add_one_entry c V bigramProb e =
     (let token = fst (fst e); prevToken = snd (fst e); bCount = snd e in
      bind (dict_get (unigramCount c) prevToken) (\<lambda>uCount.
      bind (py_div (bCount + 1) (uCount + V)) (\<lambda>p.
      Inr (dict_update (Some token, Some prevToken) p bigramProb))))"

text \<open>Lines 131-133, the inner loop over \<^verbatim>\<open>token\<close> for one \<^verbatim>\<open>prevToken\<close>.\<close>

definition unseen_entry :: "counts \<Rightarrow> nat \<Rightarrow> sym \<Rightarrow> prob_table \<Rightarrow> sym \<times> nat \<Rightarrow> error + prob_table" where
  "unseen_entry c V prevToken bigramProb e =
     (let token = fst e in
      if map_of bigramProb (Some token, Some prevToken) = None \<and> token \<noteq> START_OF_SENTENCE
      then bind (dict_get (unigramCount c) prevToken) (\<lambda>uCount.
           bind (py_div 1 (uCount + V)) (\<lambda>p.
           Inr (dict_update (Some token, Some prevToken) p bigramProb)))
      else Inr bigramProb)"

text \<open>Lines 129-133, the outer loop over \<^verbatim>\<open>prevToken\<close>.\<close>

definition unseen_row :: "counts \<Rightarrow> nat \<Rightarrow> prob_table \<Rightarrow> sym \<times> nat \<Rightarrow> error + prob_table" where
  "unseen_row c V bigramProb e =
     (let prevToken = fst e in
      if prevToken \<noteq> END_OF_SENTENCE
      then foldM (unseen_entry c V prevToken) bigramProb (unigramCount c)
      else Inr bigramProb)"

text \<open>Lines 115-133; \<open>eager\<close> is \<^verbatim>\<open>smoothing_type == "add-one"\<close>.\<close>

definition smooth_add_one :: "bool \<Rightarrow> counts \<Rightarrow> error + prob_table" where
  "smooth_add_one eager c =
     (let V = length (unigramCount c) in
      bind (foldM (add_one_entry c V) [] (bigramCount c)) (\<lambda>bigramProb.
      if eager then foldM (unseen_row c V) bigramProb (unigramCount c)
      else Inr bigramProb))"

text \<open>\<^verbatim>\<open>sum(c == n for c in bigramCount.values())\<close>\<close>

definition count_values :: "(sym \<times> sym, nat) dict \<Rightarrow> nat \<Rightarrow> nat" where
  "count_values bc n = length (filter (\<lambda>e. snd e = n) bc)"

text \<open>\<^verbatim>\<open>if n not in Nc.keys(): Nc.update({n: sum(c == n for c in bigramCount.values())})\<close>\<close>

definition memo_Nc :: "(sym \<times> sym, nat) dict \<Rightarrow> nat \<Rightarrow> (nat, nat) dict \<Rightarrow> (nat, nat) dict" where
  "memo_Nc bc n Nc = (if map_of Nc n = None then dict_update n (count_values bc n) Nc else Nc)"

text \<open>
  Lines 150-168, the body of the Good-Turing loop; its state is the dict \<^verbatim>\<open>Nc\<close> and the
  table. \<^verbatim>\<open>newCount\<close> is 0 unless \<^verbatim>\<open>Nc[bCount] != 0\<close>.
\<close>

definition good_turing_entry ::
  "counts \<Rightarrow> nat \<Rightarrow> (nat, nat) dict \<times> prob_table \<Rightarrow> (sym \<times> sym) \<times> nat \<Rightarrow>
     error + (nat, nat) dict \<times> prob_table" where
  "good_turing_entry c N st e =
     (let token = fst (fst e); prevToken = snd (fst e); bCount = snd e;
          Nc = memo_Nc (bigramCount c) (bCount + 1) (memo_Nc (bigramCount c) bCount (fst st)) in
      bind (dict_get Nc bCount) (\<lambda>n_c.
      bind (if n_c \<noteq> 0
            then bind (dict_get Nc (bCount + 1)) (\<lambda>n_c1. py_div ((bCount + 1) * n_c1) n_c)
            else Inr 0) (\<lambda>newCount.
      if N = 0 then Inl ZeroDivisionError
      else Inr (Nc, dict_update (Some token, Some prevToken) (newCount / of_nat N) (snd st)))))"

text \<open>Lines 137-171.\<close>

definition smooth_good_turing :: "counts \<Rightarrow> error + prob_table" where
  "smooth_good_turing c =
     (let N = sum_list (map snd (bigramCount c));
          Nc = dict_update 1 (count_values (bigramCount c) 1) [] in
      bind (foldM (good_turing_entry c N) (Nc, []) (bigramCount c)) (\<lambda>st.
      bind (dict_get (fst st) 1) (\<lambda>n_1.
      bind (py_div n_1 N) (\<lambda>p.
      Inr (dict_update (None, None) p (snd st))))))"

text \<open>Lines 101-171: the table for the chosen smoothing type.\<close>

fun smooth :: "smoothing \<Rightarrow> counts \<Rightarrow> error + prob_table" where
  "smooth NoSmoothing c = smooth_none c"
| "smooth AddOne c = smooth_add_one True c"
| "smooth AddOneFast c = smooth_add_one False c"
| "smooth GoodTuring c = smooth_good_turing c"

section \<open>bigram.py: the probability of a test sentence\<close>

text \<open>
  Lines 203-208: the factor for one pair. \<open>V\<close> is only read for \<^verbatim>\<open>add-one-fast\<close>, where
  it is bound.
\<close>

definition bigram_factor :: "smoothing \<Rightarrow> counts \<Rightarrow> prob_table \<Rightarrow> sym \<Rightarrow> sym \<Rightarrow> error + rat" where
  "bigram_factor smoothing_type c bigramProb token prevToken =
     (case map_of bigramProb (Some token, Some prevToken) of
        Some p \<Rightarrow> Inr p
      | None \<Rightarrow>
          if smoothing_type = AddOneFast
          then bind (dict_get (unigramCount c) prevToken) (\<lambda>uCount.
               py_div 1 (uCount + length (unigramCount c)))
          else dict_get bigramProb (None, None))"

text \<open>Lines 193-211, the body of the loop over the test sentence.\<close>

definition prob_token ::
  "smoothing \<Rightarrow> counts \<Rightarrow> prob_table \<Rightarrow> rat \<times> sym option \<Rightarrow> sym \<Rightarrow> error + rat \<times> sym option" where
  "prob_token smoothing_type c bigramProb st t =
     (let token = word_portion t in
      case snd st of
        None \<Rightarrow> Inr (fst st, Some token)
      | Some prevToken \<Rightarrow>
          bind (bigram_factor smoothing_type c bigramProb token prevToken) (\<lambda>p.
          Inr (fst st * p, Some token)))"

definition prob_tokens :: "smoothing \<Rightarrow> counts \<Rightarrow> prob_table \<Rightarrow> string list \<Rightarrow> error + rat" where
  "prob_tokens smoothing_type c bigramProb tokens =
     bind (foldM (prob_token smoothing_type c bigramProb) (1, None) (with_markers tokens))
          (\<lambda>st. Inr (fst st))"

text \<open>Lines 183-214: the printed probability of the test sentence.\<close>

definition sentence_prob :: "smoothing \<Rightarrow> counts \<Rightarrow> prob_table \<Rightarrow> string \<Rightarrow> error + rat" where
  "sentence_prob smoothing_type c bigramProb sentence =
     prob_tokens smoothing_type c bigramProb (split (lower sentence))"

text \<open>The script from the training lines to the printed probability.\<close>

definition bigram_main :: "smoothing \<Rightarrow> string list \<Rightarrow> string \<Rightarrow> error + rat" where
  "bigram_main smoothing_type lines sentence =
     (let c = train lines in
      bind (smooth smoothing_type c) (\<lambda>bigramProb.
      sentence_prob smoothing_type c bigramProb sentence))"

section \<open>bigram.py: quantities the properties are stated with\<close>

text \<open>
  The sum of the counts of the entries whose key satisfies \<open>P\<close>; \<open>bigram_sum\<close> is the
  instance for the keys with a given predecessor.
\<close>

definition wsum :: "('k \<Rightarrow> bool) \<Rightarrow> ('k, nat) dict \<Rightarrow> nat" where
  "wsum P d = sum_list (map snd (filter (\<lambda>e. P (fst e)) d))"

text \<open>
  The loop invariant of counting, inside a sentence: every symbol but the end marker has
  been followed as often as it has been counted, except the token just read
  (\<open>prev\<close>), whose successor is still to come; the end marker is never a predecessor.
  \<open>counts_ok\<close> is the same between two sentences.
\<close>

definition balanced :: "counts \<Rightarrow> sym option \<Rightarrow> bool" where
  "balanced c prev \<longleftrightarrow>
     (\<forall>p. p \<noteq> END_OF_SENTENCE \<longrightarrow>
        bigram_sum (bigramCount c) p + (if prev = Some p then 1 else 0) = count_of (unigramCount c) p) \<and>
     (\<forall>e \<in> set (bigramCount c). snd (fst e) \<noteq> END_OF_SENTENCE)"

definition counts_ok :: "counts \<Rightarrow> bool" where
  "counts_ok c \<longleftrightarrow>
     (\<forall>p. p \<noteq> END_OF_SENTENCE \<longrightarrow> bigram_sum (bigramCount c) p = count_of (unigramCount c) p) \<and>
     (\<forall>e \<in> set (bigramCount c). snd (fst e) \<noteq> END_OF_SENTENCE)"

text \<open>
  The dicts have distinct keys and positive counts; every successor of a bigram has been
  counted as a unigram and is not the start marker.
\<close>

definition counts_wf :: "counts \<Rightarrow> bool" where
  "counts_wf c \<longleftrightarrow>
     distinct (map fst (unigramCount c)) \<and> distinct (map fst (bigramCount c)) \<and>
     (\<forall>e \<in> set (unigramCount c). 0 < snd e) \<and>
     (\<forall>e \<in> set (bigramCount c). 0 < snd e \<and> fst (fst e) \<noteq> START_OF_SENTENCE \<and>
         fst (fst e) \<in> fst ` set (unigramCount c))"

text \<open>\<^verbatim>\<open>bigramProb.get(k, 0)\<close>: the probability of a key, 0 when the table has no entry.\<close>

definition prob_of :: "('k, rat) dict \<Rightarrow> 'k \<Rightarrow> rat" where
  "prob_of d k = (case map_of d k of None \<Rightarrow> 0 | Some x \<Rightarrow> x)"

text \<open>The key under which the table stores an entry of \<^verbatim>\<open>bigramCount\<close>.\<close>

definition pair_key :: "(sym \<times> sym) \<times> nat \<Rightarrow> bigram_key" where
  "pair_key e = (Some (fst (fst e)), Some (snd (fst e)))"

text \<open>
  What the loops of lines 129-133 add for a key that is still absent, after the outer
  loop has run over the predecessors \<open>ps\<close>.
\<close>

definition unseen_val :: "counts \<Rightarrow> nat \<Rightarrow> sym list \<Rightarrow> bigram_key \<Rightarrow> rat option" where
  "unseen_val c V ps k =
     (case k of
        (Some s, Some p) \<Rightarrow>
          if p \<in> set ps \<and> p \<noteq> END_OF_SENTENCE \<and> s \<in> fst ` set (unigramCount c) \<and>
             s \<noteq> START_OF_SENTENCE
          then Some (1 / of_nat (count_of (unigramCount c) p + V)) else None
      | _ \<Rightarrow> None)"

text \<open>
  The sum, over the whole vocabulary (the keys of \<^verbatim>\<open>unigramCount\<close>), of the probability
  the table holds for \<open>(s, p)\<close>; and that sum for the eager add-one table of a corpus.
\<close>

definition vocab_sum :: "counts \<Rightarrow> prob_table \<Rightarrow> sym \<Rightarrow> rat" where
  "vocab_sum c bigramProb p = (\<Sum>s\<leftarrow>map fst (unigramCount c). prob_of bigramProb (Some s, Some p))"

definition add_one_sum :: "string list \<Rightarrow> sym \<Rightarrow> error + rat" where
  "add_one_sum lines p =
     bind (smooth AddOne (train lines)) (\<lambda>bigramProb. Inr (vocab_sum (train lines) bigramProb p))"

text \<open>
  The factor that the test loop multiplies in for the pair \<open>(token, prevToken)\<close>, on the
  table built from a corpus.
\<close>

definition pair_prob :: "smoothing \<Rightarrow> string list \<Rightarrow> sym \<Rightarrow> sym \<Rightarrow> error + rat" where
  "pair_prob smoothing_type lines token prevToken =
     bind (smooth smoothing_type (train lines)) (\<lambda>bigramProb.
       bigram_factor smoothing_type (train lines) bigramProb token prevToken)"

text \<open>
  The adjusted count of Good-Turing discounting as the specification words it: for a
  count \<open>c\<close>, \<open>(c + 1) * Nc(c + 1) / Nc(c)\<close> when \<open>Nc(c)\<close> is not 0, else 0, where
  \<open>Nc(n)\<close> is the number of bigram types of count \<open>n\<close>.
\<close>

definition c_star :: "(sym \<times> sym, nat) dict \<Rightarrow> nat \<Rightarrow> rat" where
  "c_star bc c =
     (if count_values bc c \<noteq> 0
      then of_nat ((c + 1) * count_values bc (c + 1)) / of_nat (count_values bc c)
      else 0)"

text \<open>The memo dict \<^verbatim>\<open>Nc\<close> holds, for each of its keys, the number of bigram types of that count.\<close>

definition Nc_ok :: "(sym \<times> sym, nat) dict \<Rightarrow> (nat, nat) dict \<Rightarrow> bool" where
  "Nc_ok bc Nc \<longleftrightarrow> (\<forall>n v. map_of Nc n = Some v \<longrightarrow> v = count_values bc n)"

text \<open>
  The substring of a token before its first underscore (the whole token when it has
  none), and the truncated tokens of a line.
\<close>

definition before_underscore :: "string \<Rightarrow> string" where
  "before_underscore t = takeWhile (\<lambda>ch. ch \<noteq> CHR ''_'') t"

definition words_of :: "string \<Rightarrow> string list" where
  "words_of sentence = map before_underscore (split (lower sentence))"

section \<open>tagging.py: the part-of-speech model\<close>

text \<open>
  The markers are the strings \<^verbatim>\<open><s>\<close> and \<^verbatim>\<open></s>\<close> here. The keys of \<^verbatim>\<open>bigramCount\<close> are
  triples \<^verbatim>\<open>(word, tag, 'W')\<close> and \<^verbatim>\<open>(tag, prevTag, 'T')\<close>; \<open>WT_W\<close> and \<open>WT_T\<close> are the two
  values of the third component.
\<close>

definition START_OF_SENTENCE_str :: string where
  "START_OF_SENTENCE_str = ''<s>''"

definition END_OF_SENTENCE_str :: string where
  "END_OF_SENTENCE_str = ''</s>''"

datatype wt = WT_W | WT_T

type_synonym pos_key = "string \<times> string \<times> wt"

text \<open>
  A Python \<^verbatim>\<open>set\<close> of strings is a duplicate-free list, in the order of insertion (the
  order in which Python iterates over a set is not specified; no property below depends
  on it). \<^verbatim>\<open>set(tag)\<close> of a string \<^verbatim>\<open>tag\<close> is the set of its characters, each a string of
  length one.
\<close>

definition set_add :: "'a \<Rightarrow> 'a list \<Rightarrow> 'a list" where
  "set_add x s = (if x \<in> set s then s else s @ [x])"

definition set_of_string :: "string \<Rightarrow> string list" where
  "set_of_string tag = foldl (\<lambda>s ch. set_add [ch] s) [] tag"

text \<open>
  The module's variables after training. \<open>trained_word\<close> is the variable \<^verbatim>\<open>word\<close>, which
  line 66 binds and line 200 may still read.
\<close>

record pos_model =
  unigramTagCount :: "(string, nat) dict"
  bigramCount_pos :: "(pos_key, nat) dict"
  tags :: "(string, string list) dict"
  trained_word :: "string option"

text \<open>
  Lines 62-86, the body of the loop over the tokens of a line; the state is the model and
  \<^verbatim>\<open>prevTag\<close>. \<^verbatim>\<open>word_pos[1]\<close> raises \<^verbatim>\<open>IndexError\<close> on a token without underscore.
\<close>

definition train_token :: "pos_model \<times> string \<Rightarrow> string \<Rightarrow> error + pos_model \<times> string" where
  "train_token st token =
     (let m = fst st; prevTag = snd st; word_pos = split_underscore token in
      if length word_pos < 2 then Inl IndexError
      else
        let word = word_pos ! 0;
            tag = word_pos ! 1;
            tags' = (case map_of (tags m) word of
                       Some s \<Rightarrow> dict_update word (set_add tag s) (tags m)
                     | None \<Rightarrow> dict_update word (set_of_string tag) (tags m));
            utc = incr tag (unigramTagCount m);
            bc = incr (tag, prevTag, WT_T) (incr (word, tag, WT_W) (bigramCount_pos m))
        in Inr (\<lparr>unigramTagCount = utc, bigramCount_pos = bc, tags = tags',
                  trained_word = Some word\<rparr>, tag))"

text \<open>Lines 53-94, one line of the training file.\<close>

definition train_sentence :: "pos_model \<Rightarrow> string \<Rightarrow> error + pos_model" where
  "train_sentence m sentence =
     bind (foldM train_token (m, START_OF_SENTENCE_str) (split sentence)) (\<lambda>st.
     Inr ((fst st)\<lparr>unigramTagCount := incr START_OF_SENTENCE_str (unigramTagCount (fst st)),
                    bigramCount_pos := incr (END_OF_SENTENCE_str, snd st, WT_T) (bigramCount_pos (fst st))\<rparr>))"

definition empty_model :: pos_model where
  "empty_model = \<lparr>unigramTagCount = [], bigramCount_pos = [], tags = [], trained_word = None\<rparr>"

definition train_tags :: "string list \<Rightarrow> error + pos_model" where
  "train_tags lines = foldM train_sentence empty_model lines"

text \<open>
  Lines 99-105: the probabilities, and the blank key \<^verbatim>\<open>(None, None, None)\<close>, which is the
  key \<open>None\<close> here.
\<close>

type_synonym pos_table = "(pos_key option, rat) dict"

definition pos_entry :: "pos_model \<Rightarrow> pos_table \<Rightarrow> pos_key \<times> nat \<Rightarrow> error + pos_table" where
  "pos_entry m bigramProb e =
     (let token = fst (fst e); tag = fst (snd (fst e)); WT = snd (snd (fst e)); bCount = snd e in
      bind (dict_get (unigramTagCount m) tag) (\<lambda>uCount.
      bind (py_div bCount uCount) (\<lambda>p.
      Inr (dict_update (Some (token, tag, WT)) p bigramProb))))"

definition pos_probs :: "pos_model \<Rightarrow> error + pos_table" where
  "pos_probs m =
     bind (foldM (pos_entry m) [] (bigramCount_pos m)) (\<lambda>bigramProb.
     Inr (dict_update None 0 bigramProb))"

section \<open>tagging.py: the decoder\<close>

text \<open>
  \<^verbatim>\<open>max(d, key=d.get)\<close>: the first key of the largest value, \<^verbatim>\<open>ValueError\<close> on an empty
  dict. Python keeps the first of equal maxima: a later item replaces the best one only if
  its value is greater.
\<close>

fun max_entry :: "'k \<times> 'v::linorder \<Rightarrow> ('k \<times> 'v) list \<Rightarrow> 'k \<times> 'v" where
  "max_entry best [] = best"
| "max_entry best (e # es) = max_entry (if snd best < snd e then e else best) es"

definition max_key :: "('k, 'v::linorder) dict \<Rightarrow> error + 'k" where
  "max_key d = (case d of [] \<Rightarrow> Inl ValueError | e # es \<Rightarrow> Inr (fst (max_entry e es)))"

text \<open>
  The table of one step maps \<^verbatim>\<open>(tag, prevTag)\<close> to a probability; \<^verbatim>\<open>prevTag\<close> is \<^verbatim>\<open>None\<close> in
  the first table only.
\<close>

type_synonym step_table = "(string \<times> string option, rat) dict"

text \<open>Lines 161-191, the body of the loop over the tags of the current word.\<close>

definition tag_step ::
  "pos_table \<Rightarrow> string \<Rightarrow> bool \<Rightarrow> string \<Rightarrow> rat \<Rightarrow> step_table \<Rightarrow> string \<Rightarrow> step_table" where
  "tag_step bigramProb word is_last prevTag prev_prob cur_prob tag =
     (case map_of bigramProb (Some (word, tag, WT_W)) of
        None \<Rightarrow> cur_prob
      | Some pw \<Rightarrow>
         (case map_of bigramProb (Some (tag, prevTag, WT_T)) of
            None \<Rightarrow> cur_prob
          | Some pt \<Rightarrow>
              if is_last
              then (case map_of bigramProb (Some (END_OF_SENTENCE_str, tag, WT_T)) of
                      None \<Rightarrow> cur_prob
                    | Some pe \<Rightarrow> dict_update (tag, Some prevTag) (prev_prob * pw * pt * pe) cur_prob)
              else dict_update (tag, Some prevTag) (prev_prob * pw * pt) cur_prob))"

text \<open>Lines 155-191, the body of the loop over the entries of the previous table.\<close>

definition prev_step ::
  "pos_table \<Rightarrow> string \<Rightarrow> bool \<Rightarrow> string list \<Rightarrow> step_table \<Rightarrow>
     (string \<times> string option) \<times> rat \<Rightarrow> step_table" where
  "prev_step bigramProb word is_last word_tags cur_prob e =
     foldl (tag_step bigramProb word is_last (fst (fst e)) (snd e)) cur_prob word_tags"

text \<open>
  Line 148 subscripts the list \<^verbatim>\<open>prob\<close> with the tuple \<^verbatim>\<open>(prevTag, prevPrevTag)\<close>; a list
  subscript that is a tuple raises \<^verbatim>\<open>TypeError\<close>, whatever the list holds.
\<close>

definition list_getitem_tuple :: "step_table list \<Rightarrow> string \<times> string option \<Rightarrow> error + rat" where
  "list_getitem_tuple prob k = Inl TypeError"

text \<open>Lines 145-148, the body of the loop for a word without tags.\<close>

definition unseen_step ::
  "string \<Rightarrow> step_table list \<Rightarrow> step_table \<Rightarrow> (string \<times> string option) \<times> rat \<Rightarrow>
     error + step_table" where
  "unseen_step most_common_tag prob cur_prob e =
     bind (list_getitem_tuple prob (fst e)) (\<lambda>v.
     Inr (dict_update (most_common_tag, Some (fst (fst e))) v cur_prob))"

text \<open>
  Lines 130-194, the body of the loop over the positions of the test sentence: \<open>n\<close> is
  \<^verbatim>\<open>len(words)\<close>, the state is the list \<^verbatim>\<open>prob\<close>, which is never empty.
\<close>

definition word_step ::
  "pos_model \<Rightarrow> pos_table \<Rightarrow> string \<Rightarrow> nat \<Rightarrow> step_table list \<Rightarrow> nat \<times> string \<Rightarrow>
     error + step_table list" where
  "word_step m bigramProb most_common_tag n prob iw =
     (let i = fst iw; word = snd iw in
      case map_of (tags m) word of
        Some word_tags \<Rightarrow>
          Inr (prob @ [foldl (prev_step bigramProb word (i = n - 1) word_tags) [] (last prob)])
      | None \<Rightarrow>
          bind (foldM (unseen_step most_common_tag prob) [] (last prob)) (\<lambda>cur_prob.
          Inr (prob @ [cur_prob])))"

text \<open>Lines 123-194: the tables of all steps.\<close>

definition forward ::
  "pos_model \<Rightarrow> pos_table \<Rightarrow> string \<Rightarrow> string list \<Rightarrow> error + step_table list" where
  "forward m bigramProb most_common_tag words =
     foldM (word_step m bigramProb most_common_tag (length words))
           [[((START_OF_SENTENCE_str, None), 1)]] (zip [0..<length words] words)"

text \<open>
  Lines 203-222, the body of the backward loop; the state is \<^verbatim>\<open>prevTag\<close> and \<^verbatim>\<open>out\<close>. In
  the branch of line 219 \<^verbatim>\<open>best_tag\<close> is the old \<^verbatim>\<open>prevTag\<close>, which line 222 concatenates
  to a string.
\<close>

definition back_step ::
  "string \<Rightarrow> string list \<Rightarrow> step_table list \<Rightarrow> string option \<times> string \<Rightarrow> nat \<Rightarrow>
     error + string option \<times> string" where
  "back_step most_common_tag words prob st i =
     (let prevTag = fst st; out = snd st; word = words ! i; word_prob = prob ! (i + 1);
          word_prob_list = filter (\<lambda>e. Some (fst (fst e)) = prevTag) word_prob in
      if word_prob_list \<noteq> []
      then bind (max_key word_prob_list) (\<lambda>k.
           Inr (snd k, word @ ''_'' @ fst k @ '' '' @ out))
      else (case prevTag of
              None \<Rightarrow> Inl TypeError
            | Some best_tag \<Rightarrow> Inr (Some most_common_tag, word @ ''_'' @ best_tag @ '' '' @ out)))"

text \<open>
  Lines 117-225: the printed tagging of the test sentence. Line 200 reads \<^verbatim>\<open>word\<close>: the
  last word of the test sentence, or what training left when the sentence is empty.
\<close>

definition decode :: "pos_model \<Rightarrow> pos_table \<Rightarrow> string \<Rightarrow> error + string" where
  "decode m bigramProb sentence =
     (let words = split sentence in
      bind (max_key (unigramTagCount m)) (\<lambda>most_common_tag.
      bind (forward m bigramProb most_common_tag words) (\<lambda>prob.
      bind (max_key (last prob)) (\<lambda>k.
      bind (case (if words = [] then trained_word m else Some (last words)) of
              None \<Rightarrow> Inl NameError | Some word \<Rightarrow> Inr word) (\<lambda>word.
      bind (foldM (back_step most_common_tag words prob) (snd k, word @ ''_'' @ fst k)
                  (rev [0..<length words - 1])) (\<lambda>st.
      Inr (snd st)))))))"

text \<open>The script from the training lines to the printed tagging.\<close>

definition tagging_main :: "string list \<Rightarrow> string \<Rightarrow> error + string" where
  "tagging_main lines sentence =
     bind (train_tags lines) (\<lambda>m.
     bind (pos_probs m) (\<lambda>bigramProb.
     decode m bigramProb sentence))"

text \<open>The set that training leaves in \<^verbatim>\<open>tags[word]\<close> (\<open>None\<close> for a word never seen).\<close>

definition tag_vocabulary :: "string list \<Rightarrow> string \<Rightarrow> error + string list option" where
  "tag_vocabulary lines word = bind (train_tags lines) (\<lambda>m. Inr (map_of (tags m) word))"

section \<open>viterbi.py\<close>

text \<open>
  A matrix is the list of its rows. The transition matrix \<open>A\<close> has \<open>N + 1\<close> rows of length
  \<open>N\<close>, the emission matrix \<open>B\<close> has \<open>N\<close> rows of length \<open>M\<close>, where \<open>N\<close> is the number of
  tags and \<open>M\<close> the number of observations; the model describes the script on matrices of
  these shapes, where every subscript below is in range.
\<close>

text \<open>\<^verbatim>\<open>observations.index(obs)\<close>: the first position, or \<^verbatim>\<open>ValueError\<close>.\<close>

definition index_of :: "'a list \<Rightarrow> 'a \<Rightarrow> error + nat" where
  "index_of xs x =
     (if x \<in> set xs then Inr (length (takeWhile (\<lambda>y. y \<noteq> x) xs)) else Inl ValueError)"

text \<open>A list comprehension whose element may raise.\<close>

fun mapM :: "('a \<Rightarrow> error + 'b) \<Rightarrow> 'a list \<Rightarrow> error + 'b list" where
  "mapM f [] = Inr []"
| "mapM f (x # xs) =
     (case f x of
        Inl e \<Rightarrow> Inl e
      | Inr y \<Rightarrow> (case mapM f xs of Inl e \<Rightarrow> Inl e | Inr ys \<Rightarrow> Inr (y # ys)))"

text \<open>
  \<^verbatim>\<open>np.max\<close> and \<^verbatim>\<open>np.argmax\<close> of a vector: \<^verbatim>\<open>ValueError\<close> on an empty one; \<^verbatim>\<open>argmax\<close> is
  the first position of the maximum. Along axis 1 of a square matrix they work row by
  row, and raise on the matrix without rows and columns.
\<close>

definition np_max :: "rat list \<Rightarrow> error + rat" where
  "np_max xs = (case xs of [] \<Rightarrow> Inl ValueError | x # ys \<Rightarrow> Inr (foldl max x ys))"

definition np_argmax :: "rat list \<Rightarrow> error + nat" where
  "np_argmax xs =
     (case xs of
        [] \<Rightarrow> Inl ValueError
      | x # ys \<Rightarrow> Inr (length (takeWhile (\<lambda>y. y \<noteq> foldl max x ys) xs)))"

definition np_max_axis1 :: "rat list list \<Rightarrow> error + rat list" where
  "np_max_axis1 rows = (if rows = [] then Inl ValueError else mapM np_max rows)"

definition np_argmax_axis1 :: "rat list list \<Rightarrow> error + nat list" where
  "np_argmax_axis1 rows = (if rows = [] then Inl ValueError else mapM np_argmax rows)"

text \<open>\<^verbatim>\<open>m[:, t] = col\<close>\<close>

definition set_column :: "'a list list \<Rightarrow> nat \<Rightarrow> 'a list \<Rightarrow> 'a list list" where
  "set_column m t col = map (\<lambda>rc. (fst rc)[t := snd rc]) (zip m col)"

text \<open>
  Lines 83-88, the body of the loop over \<open>t\<close>; \<open>os\<close> is the list \<^verbatim>\<open>o\<close> of observation
  indices. Entry \<open>(s, s')\<close> of \<^verbatim>\<open>vAB\<close> is
  \<^verbatim>\<open>v[s', t - 1] * A[s' + 1, s] * B[s, o[t]]\<close>: the vector \<^verbatim>\<open>v[:, t - 1]\<close> is broadcast along the
  rows of \<^verbatim>\<open>A[1:].T\<close>, the column \<^verbatim>\<open>B[:, o[t]]\<close> of shape \<open>(N, 1)\<close> along its columns.
\<close>

definition viterbi_step ::
  "rat list list \<Rightarrow> rat list list \<Rightarrow> nat list \<Rightarrow> nat \<Rightarrow> rat list list \<times> nat list list \<Rightarrow> nat \<Rightarrow>
     error + rat list list \<times> nat list list" where
  "viterbi_step A B os N st t =
     (let v = fst st; bt = snd st;
          vAB = map (\<lambda>s. map (\<lambda>s'. v ! s' ! (t - 1) * A ! (s' + 1) ! s * B ! s ! (os ! t)) [0..<N])
                    [0..<N] in
      bind (np_max_axis1 vAB) (\<lambda>mx.
      bind (np_argmax_axis1 vAB) (\<lambda>am.
      Inr (set_column v t mx, set_column bt t am))))"

text \<open>
  Lines 67-88: the matrices \<^verbatim>\<open>v\<close> and \<^verbatim>\<open>bt\<close> after the loop. \<^verbatim>\<open>o[0]\<close> raises \<^verbatim>\<open>IndexError\<close> on
  an empty observation sequence.
\<close>

definition viterbi_lattice ::
  "rat list list \<Rightarrow> rat list list \<Rightarrow> nat list \<Rightarrow> nat \<Rightarrow> error + rat list list \<times> nat list list" where
  "viterbi_lattice A B os N =
     (let T = length os in
      if T = 0 then Inl IndexError
      else
        let v = set_column (replicate N (replicate T 0)) 0
                  (map (\<lambda>s. A ! 0 ! s * B ! s ! (os ! 0)) [0..<N]);
            bt = replicate N (replicate T 0)
        in foldM (viterbi_step A B os N) (v, bt) [1..<T])"

text \<open>Lines 99-101, the body of the loop that follows the back trace; the state is \<^verbatim>\<open>tag\<close> and \<^verbatim>\<open>out\<close>.\<close>

definition trace_step ::
  "string list \<Rightarrow> string list \<Rightarrow> nat list list \<Rightarrow> nat \<times> string \<Rightarrow> nat \<Rightarrow> nat \<times> string" where
  "trace_step tag_list words bt st t =
     (let tag = bt ! (fst st) ! t in
      (tag, words ! (t - 1) @ ''_'' @ tag_list ! tag @ '' '' @ snd st))"

text \<open>
  Lines 58-106: the printed probability and tag sequence; \<open>tag_list\<close> is the list \<^verbatim>\<open>tags\<close>
  of the script.
\<close>

definition viterbi ::
  "rat list list \<Rightarrow> rat list list \<Rightarrow> string list \<Rightarrow> string list \<Rightarrow> string \<Rightarrow> error + rat \<times> string" where
  "viterbi A B tag_list observations sentence =
     (let words = split sentence in
      bind (mapM (index_of observations) words) (\<lambda>os.
      let N = length tag_list; T = length os in
      bind (viterbi_lattice A B os N) (\<lambda>vbt.
      let v = fst vbt; bt = snd vbt; col = map (\<lambda>row. row ! (T - 1)) v in
      bind (np_max col) (\<lambda>best_score.
      bind (np_argmax col) (\<lambda>tag.
      Inr (best_score,
           snd (foldl (trace_step tag_list words bt) (tag, last words @ ''_'' @ tag_list ! tag)
                      (rev [1..<T]))))))))"

text \<open>
  The specification's words for the output: the state sequence found by following \<^verbatim>\<open>bt\<close>
  backward from a state at time \<open>t\<close> to time 0, listed from time 0 on; and the
  \<^verbatim>\<open>word_tag\<close> labels of a state sequence, joined by single spaces.
\<close>

fun back_path :: "nat list list \<Rightarrow> nat \<Rightarrow> nat \<Rightarrow> nat list" where
  "back_path bt s 0 = [s]"
| "back_path bt s (Suc t) = back_path bt (bt ! s ! Suc t) t @ [s]"

definition labels :: "string list \<Rightarrow> string list \<Rightarrow> nat list \<Rightarrow> string list" where
  "labels words tag_list path = map (\<lambda>ws. fst ws @ ''_'' @ tag_list ! snd ws) (zip words path)"

fun join_words :: "string list \<Rightarrow> string" where
  "join_words [] = []"
| "join_words [x] = x"
| "join_words (x # y # ys) = x @ '' '' @ join_words (y # ys)"

text \<open>The first position of the maximum of a vector.\<close>

definition first_max :: "rat list \<Rightarrow> nat" where
  "first_max xs = length (takeWhile (\<lambda>y. y \<noteq> Max (set xs)) xs)"

text \<open>
  The specification's recurrence. \<open>transition_score\<close> is the product that step \<open>t\<close>
  maximises over the predecessor \<open>s'\<close>; \<open>recurrence_at\<close> says that \<open>v[s][t]\<close> is the
  maximum of these products and \<open>bt[s][t]\<close> the first predecessor that attains it.
\<close>

definition transition_score ::
  "rat list list \<Rightarrow> rat list list \<Rightarrow> nat list \<Rightarrow> rat list list \<Rightarrow> nat \<Rightarrow> nat \<Rightarrow> nat \<Rightarrow> rat" where
  "transition_score A B os v s t s' = v ! s' ! (t - 1) * A ! (s' + 1) ! s * B ! s ! (os ! t)"

definition recurrence_at ::
  "rat list list \<Rightarrow> rat list list \<Rightarrow> nat list \<Rightarrow> nat \<Rightarrow> rat list list \<Rightarrow> nat list list \<Rightarrow>
     nat \<Rightarrow> nat \<Rightarrow> bool" where
  "recurrence_at A B os N v bt s t \<longleftrightarrow>
     v ! s ! t = Max (transition_score A B os v s t ` {..<N}) \<and>
     bt ! s ! t < N \<and>
     transition_score A B os v s t (bt ! s ! t) = v ! s ! t \<and>
     (\<forall>s' < bt ! s ! t. transition_score A B os v s t s' \<noteq> v ! s ! t)"

text \<open>
  The loop invariant of lines 81-88 before step \<open>k\<close>: both matrices have \<open>N\<close> rows of
  length \<open>T\<close>, column 0 of \<open>v\<close> is the initialization, and the recurrence holds in the
  columns \<open>1\<close> to \<open>k - 1\<close>.
\<close>

definition lattice_inv ::
  "rat list list \<Rightarrow> rat list list \<Rightarrow> nat list \<Rightarrow> nat \<Rightarrow> nat \<Rightarrow> rat list list \<times> nat list list \<Rightarrow> bool" where
  "lattice_inv A B os N k vbt \<longleftrightarrow>
     length (fst vbt) = N \<and> (\<forall>row \<in> set (fst vbt). length row = length os) \<and>
     length (snd vbt) = N \<and> (\<forall>row \<in> set (snd vbt). length row = length os) \<and>
     (\<forall>s < N. fst vbt ! s ! 0 = A ! 0 ! s * B ! s ! (os ! 0)) \<and>
     (\<forall>s < N. \<forall>t. 0 < t \<and> t < k \<longrightarrow> recurrence_at A B os N (fst vbt) (snd vbt) s t)"

section \<open>Double precision\<close>

text \<open>
  The probabilities that the scripts store are IEEE binary64 values: Python's true
  division of two integers and its float addition both return the double nearest to the
  exact result, ties going to the even mantissa. \<open>double_of x\<close> is that double, as a
  rational, for \<open>x\<close> in the normal range of binary64 (no overflow, no subnormal), where
  the quotients and sums of counts lie: \<open>binade\<close> scales the fraction \<open>p / q\<close> by powers of
  two until its value lies between \<open>2^52\<close> and \<open>2^53\<close>, \<open>nearest_mantissa\<close> rounds the
  scaled fraction to the nearest integer.
\<close>

definition nearest_mantissa :: "int \<Rightarrow> int \<Rightarrow> int" where
  "nearest_mantissa p q =
     (let f = p div q; r = p mod q in
      if 2 * r < q then f else if q < 2 * r then f + 1 else if even f then f else f + 1)"

fun binade :: "nat \<Rightarrow> int \<Rightarrow> int \<Rightarrow> int \<Rightarrow> int \<times> int \<times> int" where
  "binade 0 p q e = (p, q, e)"
| "binade (Suc fuel) p q e =
     (if p < 4503599627370496 * q then binade fuel (2 * p) q (e - 1)
      else if 9007199254740992 * q \<le> p then binade fuel p (2 * q) (e + 1)
      else (p, q, e))"

definition double_of :: "rat \<Rightarrow> rat" where
  "double_of x =
     (if x = 0 then 0
      else
        let pq = quotient_of \<bar>x\<bar>;
            pqe = binade 2200 (fst pq) (snd pq) 0;
            m = nearest_mantissa (fst pqe) (fst (snd pqe));
            e = snd (snd pqe);
            r = (if 0 \<le> e then of_int (m * 2 ^ nat e) else of_int m / of_int (2 ^ nat (- e)))
        in if x < 0 then - r else r)"

text \<open>The sum of a list of doubles, added from left to right in double arithmetic.\<close>

definition double_sum :: "rat list \<Rightarrow> rat" where
  "double_sum xs = foldl (\<lambda>acc x. double_of (acc + x)) 0 xs"

text \<open>
  The doubles that line 108 of \<^verbatim>\<open>bigram.py\<close> stores for the observed bigrams with
  predecessor \<open>p\<close>, in the order of \<^verbatim>\<open>bigramCount\<close>.
\<close>

definition stored_row :: "string list \<Rightarrow> sym \<Rightarrow> error + rat list" where
  "stored_row lines p =
     bind (smooth NoSmoothing (train lines)) (\<lambda>bigramProb.
     Inr (map (\<lambda>e. double_of (prob_of bigramProb (Some (fst (fst e)), Some p)))
              (filter (\<lambda>e. snd (fst e) = p) (bigramCount (train lines)))))"

section \<open>bigram.py: the symbols of a line\<close>

text \<open>
  The specification's words for what is counted and looked up: the symbols of a line are
  the start marker, the tokens of the line, each cut before its first underscore, and
  the end marker; the bigrams of a symbol sequence are its pairs (symbol, predecessor)
  (\<open>links prev xs\<close>, where \<open>prev\<close> is the symbol before \<open>xs\<close>, if any).
\<close>

definition symbols_of :: "string \<Rightarrow> sym list" where
  "symbols_of sentence =
     START_OF_SENTENCE # map (\<lambda>t. Tok (before_underscore t)) (split (lower sentence)) @
     [END_OF_SENTENCE]"

fun links :: "sym option \<Rightarrow> sym list \<Rightarrow> (sym \<times> sym) list" where
  "links prev [] = []"
| "links None (x # xs) = links (Some x) xs"
| "links (Some p) (x # xs) = (x, p) # links (Some x) xs"

section \<open>bigram.py: properties of the dictionaries and of counting\<close>

lemma map_of_dict_update: "map_of (dict_update k v d) = (map_of d)(k \<mapsto> v)"
  by (induction d) (auto simp: fun_eq_iff)

lemma keys_dict_update: "fst ` set (dict_update k v d) = insert k (fst ` set d)"
  by (induction d) auto

lemma distinct_dict_update: "distinct (map fst d) \<Longrightarrow> distinct (map fst (dict_update k v d))"
proof (induction d)
  case Nil
  show ?case by simp
next
  case (Cons e d)
  have "fst e \<notin> fst ` set (dict_update k v d)" if "fst e \<noteq> k"
    using that Cons.prems by (simp add: keys_dict_update)
  with Cons show ?case by auto
qed

lemma count_of_incr: "count_of (incr k d) k' = count_of d k' + (if k' = k then 1 else 0)"
  by (simp add: count_of_def incr_def map_of_dict_update split: option.splits)

lemma keys_incr: "fst ` set (incr k d) = insert k (fst ` set d)"
  by (simp add: incr_def keys_dict_update split: option.splits)

lemma distinct_incr: "distinct (map fst d) \<Longrightarrow> distinct (map fst (incr k d))"
  by (simp add: incr_def distinct_dict_update split: option.splits)

lemma count_of_Cons: "count_of (e # d) k = (if fst e = k then snd e else count_of d k)"
  by (cases e) (simp add: count_of_def)

lemma wsum_Cons: "wsum P (e # d) = (if P (fst e) then snd e else 0) + wsum P d"
  by (simp add: wsum_def)

lemma wsum_dict_update:
  "wsum P (dict_update k v d) + (if P k then count_of d k else 0) = wsum P d + (if P k then v else 0)"
proof (induction d)
  case Nil
  show ?case by (simp add: wsum_def count_of_def)
next
  case (Cons e d)
  show ?case
  proof (cases "fst e = k")
    case True
    then show ?thesis by (simp add: wsum_Cons count_of_Cons)
  next
    case False
    then show ?thesis using Cons by (cases "P k") (simp_all add: wsum_Cons count_of_Cons)
  qed
qed

lemma wsum_incr: "wsum P (incr k d) = wsum P d + (if P k then 1 else 0)"
proof (cases "map_of d k")
  case None
  then show ?thesis using wsum_dict_update[of P k 1 d]
    by (cases "P k") (simp_all add: incr_def count_of_def)
next
  case (Some c)
  then show ?thesis using wsum_dict_update[of P k "c + 1" d]
    by (cases "P k") (simp_all add: incr_def count_of_def)
qed

lemma bigram_sum_wsum: "bigram_sum bc p = wsum (\<lambda>k. snd k = p) bc"
  by (simp add: bigram_sum_def wsum_def)

lemma bigram_sum_incr:
  "bigram_sum (incr (s, q) bc) p = bigram_sum bc p + (if q = p then 1 else 0)"
  by (simp add: bigram_sum_wsum wsum_incr)

lemma word_portion_END [simp]: "word_portion t = END_OF_SENTENCE \<longleftrightarrow> t = END_OF_SENTENCE"
  by (cases t) simp_all

lemma word_portion_START [simp]: "word_portion t = START_OF_SENTENCE \<longleftrightarrow> t = START_OF_SENTENCE"
  by (cases t) simp_all

lemma snd_count_token: "snd (count_token st t) = Some (word_portion t)"
  by (simp add: count_token_def Let_def)

lemma keys_incr_mem: "e \<in> set (incr k d) \<Longrightarrow> fst e = k \<or> fst e \<in> fst ` set d"
  using keys_incr[of k d] by (metis imageI insertE)

lemma balanced_count_token:
  assumes "balanced c prev" and "prev \<noteq> Some END_OF_SENTENCE"
  shows "balanced (fst (count_token (c, prev) t)) (Some (word_portion t))"
proof (cases prev)
  case None
  with assms show ?thesis
    by (auto simp: balanced_def count_token_def Let_def count_of_incr)
next
  case (Some q)
  with assms have q: "q \<noteq> END_OF_SENTENCE" by simp
  have "snd (fst e) \<noteq> END_OF_SENTENCE"
    if "e \<in> set (incr (word_portion t, q) (bigramCount c))" for e
    using keys_incr_mem[OF that] q assms(1) by (auto simp: balanced_def)
  with Some assms(1) show ?thesis
    by (auto simp: balanced_def count_token_def Let_def count_of_incr bigram_sum_incr)
qed

lemma balanced_foldl:
  assumes "balanced c prev" and "prev \<noteq> Some END_OF_SENTENCE" and "END_OF_SENTENCE \<notin> set ts"
  shows "balanced (fst (foldl count_token (c, prev) ts)) (snd (foldl count_token (c, prev) ts)) \<and>
         snd (foldl count_token (c, prev) ts) \<noteq> Some END_OF_SENTENCE"
  using assms
proof (induction ts arbitrary: c prev)
  case Nil
  then show ?case by simp
next
  case (Cons t ts)
  obtain c' where c': "count_token (c, prev) t = (c', Some (word_portion t))"
    using snd_count_token[of "(c, prev)" t] by (cases "count_token (c, prev) t") simp
  have "balanced c' (Some (word_portion t))"
    using balanced_count_token[OF Cons.prems(1,2), of t] c' by simp
  moreover have "Some (word_portion t) \<noteq> Some END_OF_SENTENCE"
    using Cons.prems(3) by auto
  ultimately show ?case using Cons.IH[of c' "Some (word_portion t)"] Cons.prems(3) c'
    by simp
qed

lemma counts_ok_count_tokens:
  assumes "counts_ok c"
  shows "counts_ok (count_tokens c tokens)"
proof -
  let ?ts = "START_OF_SENTENCE # map Tok tokens"
  let ?st = "foldl count_token (c, None) ?ts"
  have b0: "balanced c None" using assms by (simp add: counts_ok_def balanced_def)
  have "END_OF_SENTENCE \<notin> set ?ts" by auto
  from balanced_foldl[OF b0 _ this]
  have b1: "balanced (fst ?st) (snd ?st)" and n1: "snd ?st \<noteq> Some END_OF_SENTENCE" by simp_all
  have "balanced (fst (count_token (fst ?st, snd ?st) END_OF_SENTENCE)) (Some END_OF_SENTENCE)"
    using balanced_count_token[OF b1 n1, of END_OF_SENTENCE] by simp
  moreover have "count_tokens c tokens = fst (count_token ?st END_OF_SENTENCE)"
    by (simp add: count_tokens_def with_markers_def)
  ultimately show ?thesis by (auto simp: counts_ok_def balanced_def)
qed

lemma counts_ok_foldl: "counts_ok c \<Longrightarrow> counts_ok (foldl count_sentence c lines)"
  by (induction lines arbitrary: c) (simp_all add: count_sentence_def counts_ok_count_tokens)

lemma counts_ok_train: "counts_ok (train lines)"
  unfolding train_def
  by (rule counts_ok_foldl) (simp add: counts_ok_def empty_counts_def bigram_sum_def count_of_def)

text \<open>
  Claim C7. After training on any corpus, for every predecessor \<open>p\<close> other than the end
  marker the counts of the bigrams \<open>(s, p)\<close> sum to the unigram count of \<open>p\<close>; no
  bigram has the end marker as its predecessor, and the sum for the end marker is 0.
\<close>

theorem bigram_sum_eq_unigram:
  "(\<forall>p. p \<noteq> END_OF_SENTENCE \<longrightarrow>
       bigram_sum (bigramCount (train lines)) p = count_of (unigramCount (train lines)) p) \<and>
   (\<forall>e \<in> set (bigramCount (train lines)). snd (fst e) \<noteq> END_OF_SENTENCE) \<and>
   bigram_sum (bigramCount (train lines)) END_OF_SENTENCE = 0"
proof -
  have ok: "counts_ok (train lines)" by (rule counts_ok_train)
  have "filter (\<lambda>e. snd (fst e) = END_OF_SENTENCE) (bigramCount (train lines)) = []"
    using ok by (auto simp: counts_ok_def filter_empty_conv)
  then have "bigram_sum (bigramCount (train lines)) END_OF_SENTENCE = 0"
    by (simp add: bigram_sum_def)
  with ok show ?thesis by (simp add: counts_ok_def)
qed

lemma bind_Inr [simp]: "bind (Inr x) f = f x"
  by (simp add: bind_def)

lemma bind_Inl [simp]: "bind (Inl e) f = Inl e"
  by (simp add: bind_def)

lemma dict_get_Some: "map_of d k = Some v \<Longrightarrow> dict_get d k = Inr v"
  by (simp add: dict_get_def)

lemma mem_dict_update: "e \<in> set (dict_update k v d) \<Longrightarrow> e = (k, v) \<or> e \<in> set d"
  by (induction d) (auto split: if_splits)

lemma foldM_updates:
  assumes "\<And>bp e. e \<in> set xs \<Longrightarrow> f bp e = Inr (dict_update (key e) (val e) bp)"
    and "distinct (map key xs)"
  shows "\<exists>bp'. foldM f bp xs = Inr bp' \<and>
           (\<forall>k. map_of bp' k = (case map_of (map (\<lambda>e. (key e, val e)) xs) k of
                                  Some v \<Rightarrow> Some v | None \<Rightarrow> map_of bp k))"
  using assms
proof (induction xs arbitrary: bp)
  case Nil
  then show ?case by simp
next
  case (Cons x xs)
  have fx: "f bp x = Inr (dict_update (key x) (val x) bp)" using Cons.prems(1) by simp
  have d: "distinct (map key xs)" and nx: "key x \<notin> key ` set xs" using Cons.prems(2) by auto
  from Cons.IH[OF _ d, of "dict_update (key x) (val x) bp"] Cons.prems(1)
  obtain bp' where r: "foldM f (dict_update (key x) (val x) bp) xs = Inr bp'"
    and m: "\<And>k. map_of bp' k = (case map_of (map (\<lambda>e. (key e, val e)) xs) k of
                                  Some v \<Rightarrow> Some v | None \<Rightarrow> map_of (dict_update (key x) (val x) bp) k)"
    by auto
  have none: "map_of (map (\<lambda>e. (key e, val e)) xs) (key x) = None"
    using nx by (simp add: map_of_eq_None_iff image_image)
  have "map_of bp' k = (case map_of (map (\<lambda>e. (key e, val e)) (x # xs)) k of
                                  Some v \<Rightarrow> Some v | None \<Rightarrow> map_of bp k)" for k
    using m[of k] none by (auto simp: map_of_dict_update split: option.splits)
  then show ?case using fx r by simp
qed

lemma map_of_key_val:
  assumes "distinct (map key xs)" and "e \<in> set xs"
  shows "map_of (map (\<lambda>e. (key e, val e)) xs) (key e) = Some (val e)"
proof -
  have "distinct (map fst (map (\<lambda>e. (key e, val e)) xs))" using assms(1) by (simp add: comp_def)
  moreover have "(key e, val e) \<in> set (map (\<lambda>e. (key e, val e)) xs)" using assms(2) by auto
  ultimately show ?thesis by (rule map_of_is_SomeI)
qed

text \<open>More invariants of training.\<close>

lemma mem_incr: "e \<in> set (incr k d) \<Longrightarrow> (fst e = k \<and> 0 < snd e) \<or> e \<in> set d"
  by (auto simp: incr_def split: option.splits dest!: mem_dict_update)

lemma counts_wf_count_token:
  assumes "counts_wf c" and "t \<noteq> START_OF_SENTENCE \<or> prev = None"
  shows "counts_wf (fst (count_token (c, prev) t))"
proof (cases prev)
  case None
  with assms show ?thesis
    by (auto simp: counts_wf_def count_token_def Let_def distinct_incr keys_incr dest!: mem_incr)
next
  case (Some q)
  with assms(2) have t: "word_portion t \<noteq> START_OF_SENTENCE" by simp
  have "0 < snd e \<and> fst (fst e) \<noteq> START_OF_SENTENCE \<and>
         fst (fst e) \<in> insert (word_portion t) (fst ` set (unigramCount c))"
    if "e \<in> set (incr (word_portion t, q) (bigramCount c))" for e
    using mem_incr[OF that] t assms(1) by (auto simp: counts_wf_def)
  moreover have "0 < snd e" if "e \<in> set (incr (word_portion t) (unigramCount c))" for e
    using mem_incr[OF that] assms(1) by (auto simp: counts_wf_def)
  ultimately show ?thesis using Some assms(1)
    by (simp add: counts_wf_def count_token_def Let_def distinct_incr keys_incr)
qed

lemma counts_wf_foldl:
  assumes "counts_wf c" and "START_OF_SENTENCE \<notin> set ts"
  shows "counts_wf (fst (foldl count_token (c, prev) ts))"
  using assms
proof (induction ts arbitrary: c prev)
  case Nil
  then show ?case by simp
next
  case (Cons t ts)
  have "counts_wf (fst (count_token (c, prev) t))"
    using counts_wf_count_token[OF Cons.prems(1), of t prev] Cons.prems(2) by auto
  then show ?case using Cons.IH[of "fst (count_token (c, prev) t)" "snd (count_token (c, prev) t)"]
      Cons.prems(2) by simp
qed

lemma counts_wf_count_tokens:
  assumes "counts_wf c"
  shows "counts_wf (count_tokens c tokens)"
proof -
  have 1: "counts_wf (fst (count_token (c, None) START_OF_SENTENCE))"
    using counts_wf_count_token[OF assms, of START_OF_SENTENCE None] by simp
  have "START_OF_SENTENCE \<notin> set (map Tok tokens @ [END_OF_SENTENCE])" by auto
  from counts_wf_foldl[OF 1 this, of "snd (count_token (c, None) START_OF_SENTENCE)"]
  show ?thesis by (simp add: count_tokens_def with_markers_def)
qed

lemma counts_wf_foldl_sentences: "counts_wf c \<Longrightarrow> counts_wf (foldl count_sentence c lines)"
  by (induction lines arbitrary: c) (simp_all add: count_sentence_def counts_wf_count_tokens)

lemma counts_wf_train: "counts_wf (train lines)"
  unfolding train_def
  by (rule counts_wf_foldl_sentences) (simp add: counts_wf_def empty_counts_def)

lemma le_bigram_sum: "e \<in> set bc \<Longrightarrow> snd e \<le> bigram_sum bc (snd (fst e))"
  unfolding bigram_sum_def by (rule member_le_sum_list) auto

lemma count_of_Some: "map_of d k = Some v \<Longrightarrow> count_of d k = v"
  by (simp add: count_of_def)

lemma count_of_pos_Some: "0 < count_of d k \<Longrightarrow> map_of d k = Some (count_of d k)"
  by (auto simp: count_of_def split: option.splits)

lemma pred_count_pos:
  assumes "counts_ok c" and "counts_wf c" and "e \<in> set (bigramCount c)"
  shows "0 < count_of (unigramCount c) (snd (fst e))"
proof -
  have "snd (fst e) \<noteq> END_OF_SENTENCE" using assms(1,3) by (simp add: counts_ok_def)
  then have "bigram_sum (bigramCount c) (snd (fst e)) = count_of (unigramCount c) (snd (fst e))"
    using assms(1) by (simp add: counts_ok_def)
  moreover have "0 < snd e" using assms(2,3) by (simp add: counts_wf_def)
  ultimately show ?thesis using le_bigram_sum[OF assms(3)] by simp
qed

lemma key_count_pos:
  assumes "counts_wf c" and "p \<in> fst ` set (unigramCount c)"
  shows "0 < count_of (unigramCount c) p"
proof -
  from assms(2) obtain u where u: "(p, u) \<in> set (unigramCount c)" by force
  then have "map_of (unigramCount c) p = Some u"
    using assms(1) by (simp add: counts_wf_def)
  moreover have "0 < u" using u assms(1) by (force simp: counts_wf_def)
  ultimately show ?thesis by (simp add: count_of_def)
qed

lemma distinct_pair_key: "distinct (map fst bc) \<Longrightarrow> distinct (map pair_key bc)"
proof -
  assume d: "distinct (map fst bc)"
  have "map pair_key bc = map (\<lambda>k. (Some (fst k), Some (snd k))) (map fst bc)"
    by (simp add: pair_key_def comp_def)
  moreover have "inj_on (\<lambda>k :: sym \<times> sym. (Some (fst k), Some (snd k))) (set (map fst bc))"
    by (auto simp: inj_on_def prod_eq_iff)
  ultimately show ?thesis using d by (simp only: distinct_map simp_thms)
qed

lemma sum_list_div: "(\<Sum>e\<leftarrow>xs. of_nat (f e) / (u::rat)) = of_nat (\<Sum>e\<leftarrow>xs. f e) / u"
  by (induction xs) (simp_all add: add_divide_distrib)

lemma none_entry_ok:
  assumes "counts_ok c" and "counts_wf c" and "e \<in> set (bigramCount c)"
  shows "none_entry c bp e = Inr (dict_update (pair_key e)
           (of_nat (snd e) / of_nat (count_of (unigramCount c) (snd (fst e)))) bp)"
  using pred_count_pos[OF assms] count_of_pos_Some[OF pred_count_pos[OF assms]]
  by (simp add: none_entry_def Let_def dict_get_Some py_div_def pair_key_def)

lemma smooth_none_table:
  assumes "counts_ok c" and "counts_wf c"
  shows "\<exists>bp. smooth_none c = Inr bp \<and>
           (\<forall>e \<in> set (bigramCount c). map_of bp (pair_key e) =
               Some (of_nat (snd e) / of_nat (count_of (unigramCount c) (snd (fst e))))) \<and>
           map_of bp (None, None) = Some 0"
proof -
  let ?val = "\<lambda>e. (of_nat (snd e) / of_nat (count_of (unigramCount c) (snd (fst e))) :: rat)"
  have d: "distinct (map pair_key (bigramCount c))"
    using assms(2) by (simp add: counts_wf_def distinct_pair_key)
  from foldM_updates[of "bigramCount c" "none_entry c" pair_key ?val "[]", OF none_entry_ok[OF assms] d]
  obtain bp where r: "foldM (none_entry c) [] (bigramCount c) = Inr bp"
    and m: "\<And>k. map_of bp k = (case map_of (map (\<lambda>e. (pair_key e, ?val e)) (bigramCount c)) k of
                                  Some v \<Rightarrow> Some v | None \<Rightarrow> map_of [] k)"
    by blast
  have "map_of (dict_update (None, None) 0 bp) (pair_key e) = Some (?val e)"
    if "e \<in> set (bigramCount c)" for e
    using m[of "pair_key e"] map_of_key_val[OF d that, of ?val]
    by (simp add: map_of_dict_update pair_key_def)
  then show ?thesis using r by (simp add: smooth_none_def map_of_dict_update)
qed

text \<open>
  Claim C8, amended. Without smoothing, for every predecessor \<open>p\<close> of the training corpus
  other than the end marker, the table is built without error and the probabilities of the
  observed bigrams \<open>(s, p)\<close>, taken in exact arithmetic (the quotients
  \<open>BigramCounts[(s, p)] / UnigramCounts[p]\<close> as rational numbers), sum to 1.
\<close>

theorem none_smoothing_sums_to_one:
  assumes "p \<in> fst ` set (unigramCount (train lines))" and "p \<noteq> END_OF_SENTENCE"
  shows "\<exists>bigramProb. smooth NoSmoothing (train lines) = Inr bigramProb \<and>
           (\<Sum>e\<leftarrow>filter (\<lambda>e. snd (fst e) = p) (bigramCount (train lines)).
               prob_of bigramProb (Some (fst (fst e)), Some p)) = 1"
proof -
  let ?c = "train lines"
  have ok: "counts_ok ?c" and wf: "counts_wf ?c" by (rule counts_ok_train, rule counts_wf_train)
  from smooth_none_table[OF ok wf] obtain bp where r: "smooth_none ?c = Inr bp"
    and m: "\<And>e. e \<in> set (bigramCount ?c) \<Longrightarrow> map_of bp (pair_key e) =
               Some (of_nat (snd e) / of_nat (count_of (unigramCount ?c) (snd (fst e))))"
    by blast
  let ?u = "count_of (unigramCount ?c) p"
  have u: "0 < ?u" by (rule key_count_pos[OF wf assms(1)])
  have s: "bigram_sum (bigramCount ?c) p = ?u" using ok assms(2) by (simp add: counts_ok_def)
  have "(\<Sum>e\<leftarrow>filter (\<lambda>e. snd (fst e) = p) (bigramCount ?c). prob_of bp (Some (fst (fst e)), Some p))
        = (\<Sum>e\<leftarrow>filter (\<lambda>e. snd (fst e) = p) (bigramCount ?c). of_nat (snd e) / of_nat ?u)"
  proof (rule arg_cong[where f = sum_list], rule map_cong[OF refl])
    fix e assume "e \<in> set (filter (\<lambda>e. snd (fst e) = p) (bigramCount ?c))"
    then have "e \<in> set (bigramCount ?c)" and "snd (fst e) = p" by simp_all
    then show "prob_of bp (Some (fst (fst e)), Some p) = of_nat (snd e) / of_nat ?u"
      using m[of e] by (simp add: prob_of_def pair_key_def)
  qed
  also have "\<dots> = of_nat (bigram_sum (bigramCount ?c) p) / of_nat ?u"
    by (simp add: bigram_sum_def sum_list_div)
  also have "\<dots> = 1" using u s by simp
  finally show ?thesis using r by auto
qed

lemma add_one_entry_ok:
  assumes "counts_ok c" and "counts_wf c" and "e \<in> set (bigramCount c)"
  shows "add_one_entry c V bp e = Inr (dict_update (pair_key e)
           (of_nat (snd e + 1) / of_nat (count_of (unigramCount c) (snd (fst e)) + V)) bp)"
  using pred_count_pos[OF assms] count_of_pos_Some[OF pred_count_pos[OF assms]]
  by (simp add: add_one_entry_def Let_def dict_get_Some py_div_def pair_key_def)

lemma map_of_pair_key_None:
  assumes "k \<notin> fst ` set bc"
  shows "map_of (map (\<lambda>e. (pair_key e, val e)) bc) (Some (fst k), Some (snd k)) = None"
proof -
  have "(Some (fst k), Some (snd k)) \<notin> pair_key ` set bc"
    using assms by (force simp: pair_key_def prod_eq_iff)
  then show ?thesis by (simp add: map_of_eq_None_iff image_image)
qed

lemma add_one_observed:
  assumes "counts_ok c" and "counts_wf c"
  shows "\<exists>bp. foldM (add_one_entry c V) [] (bigramCount c) = Inr bp \<and>
           (\<forall>e \<in> set (bigramCount c). map_of bp (pair_key e) =
               Some (of_nat (snd e + 1) / of_nat (count_of (unigramCount c) (snd (fst e)) + V))) \<and>
           (\<forall>s p. (s, p) \<notin> fst ` set (bigramCount c) \<longrightarrow> map_of bp (Some s, Some p) = None)"
proof -
  let ?val = "\<lambda>e. (of_nat (snd e + 1) / of_nat (count_of (unigramCount c) (snd (fst e)) + V) :: rat)"
  have d: "distinct (map pair_key (bigramCount c))"
    using assms(2) by (simp add: counts_wf_def distinct_pair_key)
  from foldM_updates[of "bigramCount c" "add_one_entry c V" pair_key ?val "[]",
      OF add_one_entry_ok[OF assms] d]
  obtain bp where r: "foldM (add_one_entry c V) [] (bigramCount c) = Inr bp"
    and m: "\<And>k. map_of bp k = (case map_of (map (\<lambda>e. (pair_key e, ?val e)) (bigramCount c)) k of
                                  Some v \<Rightarrow> Some v | None \<Rightarrow> map_of [] k)"
    by blast
  have 1: "map_of bp (pair_key e) = Some (?val e)" if "e \<in> set (bigramCount c)" for e
    using m[of "pair_key e"] map_of_key_val[OF d that, of ?val] by simp
  have 2: "map_of bp (Some s, Some p) = None" if "(s, p) \<notin> fst ` set (bigramCount c)" for s p
    using m[of "(Some s, Some p)"] map_of_pair_key_None[OF that, of ?val] by simp
  show ?thesis using r 1 2 by blast
qed

lemma unseen_inner:
  assumes "map_of (unigramCount c) p = Some u" and "0 < u + V"
  shows "\<exists>bp'. foldM (unseen_entry c V p) bp xs = Inr bp' \<and>
           (\<forall>k. map_of bp' k =
              (if map_of bp k \<noteq> None then map_of bp k
               else if \<exists>s \<in> fst ` set xs. s \<noteq> START_OF_SENTENCE \<and> k = (Some s, Some p)
                    then Some (1 / of_nat (u + V)) else None))"
proof (induction xs arbitrary: bp)
  case Nil
  show ?case by simp
next
  case (Cons x xs)
  show ?case
  proof (cases "map_of bp (Some (fst x), Some p) = None \<and> fst x \<noteq> START_OF_SENTENCE")
    case True
    let ?bp1 = "dict_update (Some (fst x), Some p) (1 / of_nat (u + V)) bp"
    have s: "unseen_entry c V p bp x = Inr ?bp1"
      using True assms by (simp add: unseen_entry_def Let_def dict_get_Some py_div_def)
    from Cons.IH[of ?bp1] obtain bp' where r: "foldM (unseen_entry c V p) ?bp1 xs = Inr bp'"
      and m: "\<And>k. map_of bp' k =
              (if map_of ?bp1 k \<noteq> None then map_of ?bp1 k
               else if \<exists>s \<in> fst ` set xs. s \<noteq> START_OF_SENTENCE \<and> k = (Some s, Some p)
                    then Some (1 / of_nat (u + V)) else None)" by blast
    have "map_of bp' k =
              (if map_of bp k \<noteq> None then map_of bp k
               else if \<exists>s \<in> fst ` set (x # xs). s \<noteq> START_OF_SENTENCE \<and> k = (Some s, Some p)
                    then Some (1 / of_nat (u + V)) else None)" for k
      using m[of k] True by (auto simp: map_of_dict_update)
    then show ?thesis using s r by simp
  next
    case False
    have s: "unseen_entry c V p bp x = Inr bp"
      using False by (auto simp: unseen_entry_def Let_def)
    from Cons.IH[of bp] obtain bp' where r: "foldM (unseen_entry c V p) bp xs = Inr bp'"
      and m: "\<And>k. map_of bp' k =
              (if map_of bp k \<noteq> None then map_of bp k
               else if \<exists>s \<in> fst ` set xs. s \<noteq> START_OF_SENTENCE \<and> k = (Some s, Some p)
                    then Some (1 / of_nat (u + V)) else None)" by blast
    have "map_of bp' k =
              (if map_of bp k \<noteq> None then map_of bp k
               else if \<exists>s \<in> fst ` set (x # xs). s \<noteq> START_OF_SENTENCE \<and> k = (Some s, Some p)
                    then Some (1 / of_nat (u + V)) else None)" for k
      using m[of k] False by auto
    then show ?thesis using s r by simp
  qed
qed

lemma unseen_outer:
  assumes "counts_wf c" and "set ys \<subseteq> set (unigramCount c)"
  shows "\<exists>bp'. foldM (unseen_row c V) bp ys = Inr bp' \<and>
           (\<forall>k. map_of bp' k =
              (if map_of bp k \<noteq> None then map_of bp k else unseen_val c V (map fst ys) k))"
  using assms(2)
proof (induction ys arbitrary: bp)
  case Nil
  show ?case by (auto simp: unseen_val_def split: prod.splits option.splits)
next
  case (Cons y ys)
  have y: "y \<in> set (unigramCount c)" and ys: "set ys \<subseteq> set (unigramCount c)"
    using Cons.prems by auto
  have u: "0 < count_of (unigramCount c) (fst y)"
    using key_count_pos[OF assms(1), of "fst y"] y by auto
  have mu: "map_of (unigramCount c) (fst y) = Some (count_of (unigramCount c) (fst y))"
    by (rule count_of_pos_Some[OF u])
  obtain bp1 where r1: "unseen_row c V bp y = Inr bp1"
    and m1: "\<And>k. map_of bp1 k =
              (if map_of bp k \<noteq> None then map_of bp k else unseen_val c V [fst y] k)"
  proof (cases "fst y = END_OF_SENTENCE")
    case True
    have "unseen_row c V bp y = Inr bp" using True by (simp add: unseen_row_def)
    moreover have "map_of bp k =
              (if map_of bp k \<noteq> None then map_of bp k else unseen_val c V [fst y] k)" for k
      using True by (auto simp: unseen_val_def split: prod.splits option.splits)
    ultimately show ?thesis using that by blast
  next
    case False
    from unseen_inner[OF mu, of V bp "unigramCount c"] u
    obtain bp1 where r: "foldM (unseen_entry c V (fst y)) bp (unigramCount c) = Inr bp1"
      and m: "\<And>k. map_of bp1 k =
              (if map_of bp k \<noteq> None then map_of bp k
               else if \<exists>s \<in> fst ` set (unigramCount c). s \<noteq> START_OF_SENTENCE \<and> k = (Some s, Some (fst y))
                    then Some (1 / of_nat (count_of (unigramCount c) (fst y) + V)) else None)"
      by auto
    have "unseen_row c V bp y = Inr bp1" using False r by (simp add: unseen_row_def)
    moreover have "map_of bp1 k =
              (if map_of bp k \<noteq> None then map_of bp k else unseen_val c V [fst y] k)" for k
      using m[of k] False by (auto simp: unseen_val_def split: prod.splits option.splits)
    ultimately show ?thesis using that by blast
  qed
  from Cons.IH[OF ys, of bp1] obtain bp' where r: "foldM (unseen_row c V) bp1 ys = Inr bp'"
    and m: "\<And>k. map_of bp' k =
              (if map_of bp1 k \<noteq> None then map_of bp1 k else unseen_val c V (map fst ys) k)"
    by blast
  have "map_of bp' k =
              (if map_of bp k \<noteq> None then map_of bp k else unseen_val c V (map fst (y # ys)) k)" for k
    using m[of k] m1[of k] by (auto simp: unseen_val_def split: prod.splits option.splits if_splits)
  then show ?case using r1 r by simp
qed

lemma keys_count_token:
  "fst ` set (unigramCount (fst (count_token st t))) =
     insert (word_portion t) (fst ` set (unigramCount (fst st)))"
  by (simp add: count_token_def Let_def keys_incr)

lemma keys_foldl_count_token:
  "fst ` set (unigramCount (fst (foldl count_token st ts))) =
     word_portion ` set ts \<union> fst ` set (unigramCount (fst st))"
  by (induction ts arbitrary: st) (auto simp: keys_count_token)

lemma keys_count_tokens:
  "START_OF_SENTENCE \<in> fst ` set (unigramCount (count_tokens c tokens))"
  unfolding count_tokens_def with_markers_def keys_foldl_count_token by simp

lemma start_in_train:
  "unigramCount (train lines) \<noteq> [] \<Longrightarrow> START_OF_SENTENCE \<in> fst ` set (unigramCount (train lines))"
proof (induction lines rule: rev_induct)
  case Nil
  then show ?case by (simp add: train_def empty_counts_def)
next
  case (snoc l lines)
  show ?case by (simp add: train_def count_sentence_def keys_count_tokens)
qed

lemma sum_list_single:
  "distinct xs \<Longrightarrow> s0 \<in> set xs \<Longrightarrow> (\<Sum>s\<leftarrow>xs. if s = s0 then v else (0::nat)) = v"
proof (induction xs)
  case Nil
  then show ?case by simp
next
  case (Cons x xs)
  show ?case
  proof (cases "x = s0")
    case True
    then have "s0 \<notin> set xs" using Cons.prems by simp
    then have "(\<Sum>s\<leftarrow>xs. if s = s0 then v else (0::nat)) = (\<Sum>s\<leftarrow>xs. 0)"
      by (intro arg_cong[where f = sum_list] map_cong) auto
    then show ?thesis using True by simp
  next
    case False
    then show ?thesis using Cons by simp
  qed
qed

lemma count_of_absent: "k \<notin> fst ` set d \<Longrightarrow> count_of d k = 0"
  by (simp add: count_of_def map_of_eq_None_iff[THEN iffD2])

lemma sum_count_of_pairs:
  assumes "distinct (map fst bc)" and "distinct xs" and "\<forall>e \<in> set bc. fst (fst e) \<in> set xs"
  shows "(\<Sum>s\<leftarrow>xs. count_of bc (s, p)) = bigram_sum bc p"
  using assms(1,3)
proof (induction bc)
  case Nil
  show ?case by (simp add: count_of_def bigram_sum_def)
next
  case (Cons e bc)
  have IH: "(\<Sum>s\<leftarrow>xs. count_of bc (s, p)) = bigram_sum bc p" using Cons by simp
  show ?case
  proof (cases "snd (fst e) = p")
    case False
    then have "count_of (e # bc) (s, p) = count_of bc (s, p)" for s
      by (auto simp: count_of_Cons)
    then show ?thesis using IH False by (simp add: bigram_sum_def)
  next
    case True
    have e: "fst e = (fst (fst e), p)" using True by (simp add: prod_eq_iff)
    have "fst e \<notin> fst ` set bc" using Cons.prems(1) by simp
    then have z: "count_of bc (fst (fst e), p) = 0" using e count_of_absent by metis
    have "count_of (e # bc) (s, p) = (if s = fst (fst e) then snd e else 0) + count_of bc (s, p)" for s
      using z e by (auto simp: count_of_Cons prod_eq_iff)
    then have "(\<Sum>s\<leftarrow>xs. count_of (e # bc) (s, p)) =
               (\<Sum>s\<leftarrow>xs. if s = fst (fst e) then snd e else 0) + (\<Sum>s\<leftarrow>xs. count_of bc (s, p))"
      by (simp add: sum_list_addf)
    also have "\<dots> = snd e + bigram_sum bc p"
      using sum_list_single[OF assms(2), of "fst (fst e)" "snd e"] Cons.prems(2) IH by simp
    finally show ?thesis using True by (simp add: bigram_sum_def)
  qed
qed

lemma sum_not_start:
  "distinct xs \<Longrightarrow>
   (\<Sum>s\<leftarrow>xs. if s = START_OF_SENTENCE then 0 else (1::nat)) + (if START_OF_SENTENCE \<in> set xs then 1 else 0) = length xs"
  by (induction xs) auto

text \<open>The value of a pair in the eager add-one table.\<close>

lemma add_one_eager_table:
  assumes "counts_ok c" and "counts_wf c"
  shows "\<exists>bp. smooth_add_one True c = Inr bp \<and>
           (\<forall>s p. s \<in> fst ` set (unigramCount c) \<longrightarrow> p \<in> fst ` set (unigramCount c) \<longrightarrow>
                  p \<noteq> END_OF_SENTENCE \<longrightarrow>
              map_of bp (Some s, Some p) =
                (if (s, p) \<in> fst ` set (bigramCount c) \<or> s \<noteq> START_OF_SENTENCE
                 then Some (of_nat (count_of (bigramCount c) (s, p) + 1) /
                            of_nat (count_of (unigramCount c) p + length (unigramCount c)))
                 else None))"
proof -
  let ?V = "length (unigramCount c)"
  from add_one_observed[OF assms, of ?V] obtain bp1 where
    r1: "foldM (add_one_entry c ?V) [] (bigramCount c) = Inr bp1"
    and o1: "\<And>e. e \<in> set (bigramCount c) \<Longrightarrow> map_of bp1 (pair_key e) =
               Some (of_nat (snd e + 1) / of_nat (count_of (unigramCount c) (snd (fst e)) + ?V))"
    and n1: "\<And>s p. (s, p) \<notin> fst ` set (bigramCount c) \<Longrightarrow> map_of bp1 (Some s, Some p) = None"
    by blast
  from unseen_outer[OF assms(2), of "unigramCount c" ?V bp1] obtain bp where
    r: "foldM (unseen_row c ?V) bp1 (unigramCount c) = Inr bp"
    and m: "\<And>k. map_of bp k =
              (if map_of bp1 k \<noteq> None then map_of bp1 k
               else unseen_val c ?V (map fst (unigramCount c)) k)"
    by auto
  have "map_of bp (Some s, Some p) =
                (if (s, p) \<in> fst ` set (bigramCount c) \<or> s \<noteq> START_OF_SENTENCE
                 then Some (of_nat (count_of (bigramCount c) (s, p) + 1) /
                            of_nat (count_of (unigramCount c) p + ?V))
                 else None)"
    if s: "s \<in> fst ` set (unigramCount c)" and p: "p \<in> fst ` set (unigramCount c)"
      and pe: "p \<noteq> END_OF_SENTENCE" for s p
  proof (cases "(s, p) \<in> fst ` set (bigramCount c)")
    case True
    then obtain n where e: "((s, p), n) \<in> set (bigramCount c)" by force
    have "map_of (bigramCount c) (s, p) = Some n" using e assms(2) by (simp add: counts_wf_def)
    then have "count_of (bigramCount c) (s, p) = n" by (simp add: count_of_def)
    then show ?thesis using o1[OF e] m[of "(Some s, Some p)"] True by (simp add: pair_key_def)
  next
    case False
    have "count_of (bigramCount c) (s, p) = 0" using False by (rule count_of_absent)
    then show ?thesis using n1[OF False] m[of "(Some s, Some p)"] False s p pe
      by (simp add: unseen_val_def)
  qed
  then show ?thesis using r1 r by (simp add: smooth_add_one_def Let_def)
qed

text \<open>
  Claim C4, amended. With eager add-one smoothing, for every predecessor \<open>p\<close> of the
  vocabulary other than the end marker, the probabilities of \<open>(s, p)\<close> summed over the
  whole vocabulary (an absent entry counting 0) give \<open>1 - 1 / (UnigramCounts[p] + V)\<close>:
  the start marker is counted in \<open>V\<close> but line 132 never gives it an entry as a successor.
\<close>

theorem add_one_sum_below_one:
  assumes "p \<in> fst ` set (unigramCount (train lines))" and "p \<noteq> END_OF_SENTENCE"
  shows "add_one_sum lines p =
           Inr (1 - 1 / of_nat (count_of (unigramCount (train lines)) p + length (unigramCount (train lines))))"
proof -
  let ?c = "train lines"
  let ?uc = "unigramCount ?c"
  let ?bc = "bigramCount ?c"
  let ?u = "count_of ?uc p"
  let ?V = "length ?uc"
  have ok: "counts_ok ?c" and wf: "counts_wf ?c" by (rule counts_ok_train, rule counts_wf_train)
  from add_one_eager_table[OF ok wf] obtain bp where r: "smooth_add_one True ?c = Inr bp"
    and m: "\<And>s. s \<in> fst ` set ?uc \<Longrightarrow> map_of bp (Some s, Some p) =
                (if (s, p) \<in> fst ` set ?bc \<or> s \<noteq> START_OF_SENTENCE
                 then Some (of_nat (count_of ?bc (s, p) + 1) / of_nat (?u + ?V))
                 else None)"
    using assms by blast
  have d: "distinct (map fst ?uc)" and db: "distinct (map fst ?bc)"
    and succ: "\<forall>e \<in> set ?bc. fst (fst e) \<in> set (map fst ?uc)"
    and ns: "\<forall>e \<in> set ?bc. fst (fst e) \<noteq> START_OF_SENTENCE"
    using wf by (simp_all add: counts_wf_def)
  have ne: "?uc \<noteq> []" using assms(1) by auto
  have st: "START_OF_SENTENCE \<in> set (map fst ?uc)" using start_in_train[OF ne] by simp
  have val: "prob_of bp (Some s, Some p) =
               of_nat (count_of ?bc (s, p) + (if s = START_OF_SENTENCE then 0 else 1)) / of_nat (?u + ?V)"
    if "s \<in> set (map fst ?uc)" for s
  proof (cases "s = START_OF_SENTENCE")
    case True
    then have a: "(s, p) \<notin> fst ` set ?bc" using ns by force
    then have "count_of ?bc (s, p) = 0" by (rule count_of_absent)
    then show ?thesis using m[of s] that True a by (simp add: prob_of_def)
  next
    case False
    then show ?thesis using m[of s] that by (simp add: prob_of_def)
  qed
  have "vocab_sum ?c bp p =
          (\<Sum>s\<leftarrow>map fst ?uc. of_nat (count_of ?bc (s, p) + (if s = START_OF_SENTENCE then 0 else 1)) / of_nat (?u + ?V))"
    unfolding vocab_sum_def by (rule arg_cong[where f = sum_list], rule map_cong[OF refl]) (rule val)
  also have "\<dots> = of_nat (\<Sum>s\<leftarrow>map fst ?uc. count_of ?bc (s, p) + (if s = START_OF_SENTENCE then 0 else 1)) / of_nat (?u + ?V)"
    by (rule sum_list_div)
  also have "(\<Sum>s\<leftarrow>map fst ?uc. count_of ?bc (s, p) + (if s = START_OF_SENTENCE then 0 else 1))
             = bigram_sum ?bc p + (\<Sum>s\<leftarrow>map fst ?uc. if s = START_OF_SENTENCE then 0 else 1)"
    using sum_count_of_pairs[OF db d succ, of p] by (simp add: sum_list_addf comp_def)
  also have "bigram_sum ?bc p = ?u" using ok assms(2) by (simp add: counts_ok_def)
  finally have v: "vocab_sum ?c bp p =
      of_nat (?u + (\<Sum>s\<leftarrow>map fst ?uc. if s = START_OF_SENTENCE then 0 else 1)) / of_nat (?u + ?V)" .
  define n where "n = (\<Sum>s\<leftarrow>map fst ?uc. if s = START_OF_SENTENCE then 0 else (1::nat))"
  have V: "?V = Suc n" using sum_not_start[OF d] st by (simp add: n_def)
  have frac: "x / (x + 1) = 1 - 1 / (x + 1)" if "0 \<le> x" for x :: rat
  proof -
    have "x + 1 \<noteq> 0" using that by linarith
    then show ?thesis by (simp add: field_simps)
  qed
  have "vocab_sum ?c bp p = of_nat (?u + n) / of_nat (?u + ?V)"
    using v by (simp only: n_def)
  also have "(of_nat (?u + ?V) :: rat) = of_nat (?u + n) + 1" by (simp add: V)
  finally have "vocab_sum ?c bp p = 1 - 1 / (of_nat (?u + n) + 1)"
    using frac[of "of_nat (?u + n)"] by simp
  also have "(of_nat (?u + n) + 1 :: rat) = of_nat (?u + ?V)" by (simp add: V)
  finally have "vocab_sum ?c bp p = 1 - 1 / of_nat (?u + ?V)" .
  then show ?thesis using r by (simp add: add_one_sum_def)
qed

subsection \<open>The theorems at concrete corpora\<close>

theorem bigram_sum_eq_unigram_witness:
  "Tok ''the'' \<noteq> END_OF_SENTENCE \<and>
   bigram_sum (bigramCount (train [''The dog runs'', ''the cat''])) (Tok ''the'') =
     count_of (unigramCount (train [''The dog runs'', ''the cat''])) (Tok ''the'') \<and>
   count_of (unigramCount (train [''The dog runs'', ''the cat''])) (Tok ''the'') = 2"
proof -
  have h: "Tok ''the'' \<noteq> END_OF_SENTENCE" by simp
  have e: "bigram_sum (bigramCount (train [''The dog runs'', ''the cat''])) (Tok ''the'') =
     count_of (unigramCount (train [''The dog runs'', ''the cat''])) (Tok ''the'')"
    using bigram_sum_eq_unigram[of "[''The dog runs'', ''the cat'']"] h by blast
  have v: "count_of (unigramCount (train [''The dog runs'', ''the cat''])) (Tok ''the'') = 2"
    by code_simp
  show ?thesis using h e v by simp
qed

theorem none_smoothing_sums_to_one_witness:
  "Tok ''a'' \<in> fst ` set (unigramCount (train [''a b'', ''a c'', ''a d'', ''a e'', ''a f'', ''a g''])) \<and>
   Tok ''a'' \<noteq> END_OF_SENTENCE \<and>
   (\<exists>bigramProb. smooth NoSmoothing (train [''a b'', ''a c'', ''a d'', ''a e'', ''a f'', ''a g'']) = Inr bigramProb \<and>
      (\<Sum>e\<leftarrow>filter (\<lambda>e. snd (fst e) = Tok ''a'') (bigramCount (train [''a b'', ''a c'', ''a d'', ''a e'', ''a f'', ''a g''])).
          prob_of bigramProb (Some (fst (fst e)), Some (Tok ''a''))) = 1) \<and>
   count_of (unigramCount (train [''a b'', ''a c'', ''a d'', ''a e'', ''a f'', ''a g''])) (Tok ''a'') = 6 \<and>
   map snd (filter (\<lambda>e. snd (fst e) = Tok ''a'') (bigramCount (train [''a b'', ''a c'', ''a d'', ''a e'', ''a f'', ''a g'']))) = [1, 1, 1, 1, 1, 1]"
proof -
  have h1: "Tok ''a'' \<in> fst ` set (unigramCount (train [''a b'', ''a c'', ''a d'', ''a e'', ''a f'', ''a g'']))"
    by code_simp
  have h2: "Tok ''a'' \<noteq> END_OF_SENTENCE" by simp
  have v: "count_of (unigramCount (train [''a b'', ''a c'', ''a d'', ''a e'', ''a f'', ''a g''])) (Tok ''a'') = 6"
    "map snd (filter (\<lambda>e. snd (fst e) = Tok ''a'') (bigramCount (train [''a b'', ''a c'', ''a d'', ''a e'', ''a f'', ''a g'']))) = [1, 1, 1, 1, 1, 1]"
    by code_simp+
  show ?thesis using none_smoothing_sums_to_one[OF h1 h2] h1 h2 v by blast
qed

text \<open>
  Claim C8 as stated fails on the corpus of the six lines \<^verbatim>\<open>a b\<close>, \<^verbatim>\<open>a c\<close>, \<^verbatim>\<open>a d\<close>, \<^verbatim>\<open>a e\<close>,
  \<^verbatim>\<open>a f\<close>, \<^verbatim>\<open>a g\<close>: \<^verbatim>\<open>a\<close> has count 6 and six successors of count 1, and line 108 stores the
  double nearest to 1/6 for each, which is below 1/6. The six stored values sum to
  \<open>1 - 2^-54\<close> exactly, and to \<open>1 - 2^-53\<close> (printed \<^verbatim>\<open>0.9999999999999999\<close>) when they are
  added as doubles; neither is 1.
\<close>

theorem none_smoothing_counterexample:
  "Tok ''a'' \<in> fst ` set (unigramCount (train [''a b'', ''a c'', ''a d'', ''a e'', ''a f'', ''a g''])) \<and>
   Tok ''a'' \<noteq> END_OF_SENTENCE \<and>
   stored_row [''a b'', ''a c'', ''a d'', ''a e'', ''a f'', ''a g''] (Tok ''a'') = Inr (replicate 6 (6004799503160661 / 36028797018963968)) \<and>
   sum_list (replicate 6 (6004799503160661 / 36028797018963968 :: rat)) = 1 - 1 / 2 ^ 54 \<and>
   sum_list (replicate 6 (6004799503160661 / 36028797018963968 :: rat)) \<noteq> 1 \<and>
   double_sum (replicate 6 (6004799503160661 / 36028797018963968)) = 1 - 1 / 2 ^ 53 \<and>
   double_sum (replicate 6 (6004799503160661 / 36028797018963968)) \<noteq> 1"
  by code_simp

theorem add_one_sum_below_one_witness:
  "START_OF_SENTENCE \<in> fst ` set (unigramCount (train [''a''])) \<and>
   START_OF_SENTENCE \<noteq> END_OF_SENTENCE \<and>
   add_one_sum [''a''] START_OF_SENTENCE =
     Inr (1 - 1 / of_nat (count_of (unigramCount (train [''a''])) START_OF_SENTENCE +
                          length (unigramCount (train [''a'']))))"
proof -
  have h1: "START_OF_SENTENCE \<in> fst ` set (unigramCount (train [''a'']))" by code_simp
  have h2: "START_OF_SENTENCE \<noteq> END_OF_SENTENCE" by simp
  show ?thesis using add_one_sum_below_one[OF h1 h2] h1 h2 by blast
qed

text \<open>
  Claim C4 as stated fails on the one-line corpus \<^verbatim>\<open>a\<close>: the vocabulary is the start marker,
  \<^verbatim>\<open>a\<close> and the end marker (\<open>V = 3\<close>), the start marker has count 1, and the entries for
  the predecessor start marker are 2/4 for \<^verbatim>\<open>a\<close> and 1/4 for the end marker.
\<close>

theorem add_one_sum_counterexample:
  "START_OF_SENTENCE \<in> fst ` set (unigramCount (train [''a''])) \<and>
   START_OF_SENTENCE \<noteq> END_OF_SENTENCE \<and>
   add_one_sum [''a''] START_OF_SENTENCE = Inr (3 / 4) \<and>
   add_one_sum [''a''] START_OF_SENTENCE \<noteq> Inr 1"
  by code_simp

section \<open>bigram.py: add-one and add-one-fast\<close>

text \<open>
  Claim C5, amended. For every training corpus and every pair \<open>(s, p)\<close> of vocabulary
  symbols with \<open>s\<close> not the start marker and \<open>p\<close> not the end marker, the test loop
  multiplies in the same factor under add-one and add-one-fast: \<open>(c + 1) / (UnigramCounts[p] + V)\<close>
  when the pair was observed with count \<open>c\<close>, and \<open>1 / (UnigramCounts[p] + V)\<close> when it
  was not.
\<close>

theorem add_one_fast_agrees:
  assumes "s \<in> fst ` set (unigramCount (train lines))"
    and "p \<in> fst ` set (unigramCount (train lines))"
    and "s \<noteq> START_OF_SENTENCE" and "p \<noteq> END_OF_SENTENCE"
  shows "pair_prob AddOne lines s p = pair_prob AddOneFast lines s p \<and>
         pair_prob AddOneFast lines s p =
           Inr ((if (s, p) \<in> fst ` set (bigramCount (train lines))
                 then of_nat (count_of (bigramCount (train lines)) (s, p) + 1) else 1) /
                of_nat (count_of (unigramCount (train lines)) p + length (unigramCount (train lines))))"
proof -
  let ?c = "train lines"
  let ?uc = "unigramCount ?c"
  let ?bc = "bigramCount ?c"
  let ?u = "count_of ?uc p"
  let ?V = "length ?uc"
  let ?r = "(if (s, p) \<in> fst ` set ?bc then of_nat (count_of ?bc (s, p) + 1) else 1) / (of_nat (?u + ?V) :: rat)"
  have ok: "counts_ok ?c" and wf: "counts_wf ?c" by (rule counts_ok_train, rule counts_wf_train)
  have u: "0 < ?u" by (rule key_count_pos[OF wf assms(2)])
  have mu: "map_of ?uc p = Some ?u" by (rule count_of_pos_Some[OF u])
  have eager: "pair_prob AddOne lines s p = Inr ?r"
  proof -
    from add_one_eager_table[OF ok wf] obtain bp where r: "smooth_add_one True ?c = Inr bp"
      and m0: "\<And>s p. s \<in> fst ` set ?uc \<Longrightarrow> p \<in> fst ` set ?uc \<Longrightarrow> p \<noteq> END_OF_SENTENCE \<Longrightarrow>
              map_of bp (Some s, Some p) =
                (if (s, p) \<in> fst ` set ?bc \<or> s \<noteq> START_OF_SENTENCE
                 then Some (of_nat (count_of ?bc (s, p) + 1) / of_nat (count_of ?uc p + ?V))
                 else None)"
      by blast
    have m: "map_of bp (Some s, Some p) =
                  Some (of_nat (count_of ?bc (s, p) + 1) / of_nat (?u + ?V))"
      using m0[OF assms(1,2,4)] assms(3) by simp
    have "(s, p) \<notin> fst ` set ?bc \<Longrightarrow> count_of ?bc (s, p) = 0" by (rule count_of_absent)
    then show ?thesis using r m by (auto simp: pair_prob_def bigram_factor_def)
  qed
  have lazy: "pair_prob AddOneFast lines s p = Inr ?r"
  proof -
    from add_one_observed[OF ok wf, of ?V] obtain bp where
      r: "foldM (add_one_entry ?c ?V) [] ?bc = Inr bp"
      and o: "\<And>e. e \<in> set ?bc \<Longrightarrow> map_of bp (pair_key e) =
               Some (of_nat (snd e + 1) / of_nat (count_of ?uc (snd (fst e)) + ?V))"
      and n: "\<And>s p. (s, p) \<notin> fst ` set ?bc \<Longrightarrow> map_of bp (Some s, Some p) = None"
      by blast
    have sm: "smooth AddOneFast ?c = Inr bp" using r by (simp add: smooth_add_one_def Let_def)
    show ?thesis
    proof (cases "(s, p) \<in> fst ` set ?bc")
      case True
      then obtain k where e: "((s, p), k) \<in> set ?bc" by force
      have "map_of ?bc (s, p) = Some k" using e wf by (simp add: counts_wf_def)
      then have "count_of ?bc (s, p) = k" by (simp add: count_of_def)
      then show ?thesis using o[OF e] sm True
        by (simp add: pair_prob_def bigram_factor_def pair_key_def)
    next
      case False
      then show ?thesis using n[OF False] sm mu u
        by (simp add: pair_prob_def bigram_factor_def dict_get_Some py_div_def)
    qed
  qed
  show ?thesis using eager lazy by simp
qed

theorem add_one_fast_agrees_witness:
  "Tok ''dog'' \<in> fst ` set (unigramCount (train [''The dog runs'', ''the cat''])) \<and>
   Tok ''cat'' \<in> fst ` set (unigramCount (train [''The dog runs'', ''the cat''])) \<and>
   Tok ''dog'' \<noteq> START_OF_SENTENCE \<and> Tok ''cat'' \<noteq> END_OF_SENTENCE \<and>
   pair_prob AddOne [''The dog runs'', ''the cat''] (Tok ''dog'') (Tok ''cat'') =
     pair_prob AddOneFast [''The dog runs'', ''the cat''] (Tok ''dog'') (Tok ''cat'') \<and>
   pair_prob AddOneFast [''The dog runs'', ''the cat''] (Tok ''dog'') (Tok ''cat'') = Inr (1 / 7)"
proof -
  have h1: "Tok ''dog'' \<in> fst ` set (unigramCount (train [''The dog runs'', ''the cat'']))"
    by code_simp
  have h2: "Tok ''cat'' \<in> fst ` set (unigramCount (train [''The dog runs'', ''the cat'']))"
    by code_simp
  have h3: "Tok ''dog'' \<noteq> START_OF_SENTENCE" and h4: "Tok ''cat'' \<noteq> END_OF_SENTENCE"
    by simp_all
  have v: "pair_prob AddOneFast [''The dog runs'', ''the cat''] (Tok ''dog'') (Tok ''cat'') = Inr (1 / 7)"
    by code_simp
  show ?thesis using add_one_fast_agrees[OF h1 h2 h3 h4] h1 h2 h3 h4 v by simp
qed

text \<open>
  Claim C5 as stated fails for a pair with a word the corpus does not have. After
  training on the one line \<^verbatim>\<open>a\<close> (so \<open>V = 3\<close> and the start marker has count 1), the pair
  (\<^verbatim>\<open>b\<close>, start marker) is unobserved; add-one-fast computes 1/4 for it, while add-one
  finds no entry and reads the blank key \<^verbatim>\<open>(None, None)\<close>, which only the other two
  smoothing types store: \<^verbatim>\<open>KeyError\<close>.
\<close>

theorem add_one_fast_counterexample:
  "(Tok ''b'', START_OF_SENTENCE) \<notin> fst ` set (bigramCount (train [''a''])) \<and>
   pair_prob AddOneFast [''a''] (Tok ''b'') START_OF_SENTENCE = Inr (1 / 4) \<and>
   pair_prob AddOne [''a''] (Tok ''b'') START_OF_SENTENCE = Inl KeyError"
  by code_simp

section \<open>bigram.py: Good-Turing discounting\<close>

lemma memo_Nc_ok: "Nc_ok bc Nc \<Longrightarrow> Nc_ok bc (memo_Nc bc n Nc)"
  by (auto simp: Nc_ok_def memo_Nc_def map_of_dict_update)

lemma memo_Nc_get: "Nc_ok bc Nc \<Longrightarrow> map_of (memo_Nc bc n Nc) n = Some (count_values bc n)"
  by (auto simp: Nc_ok_def memo_Nc_def map_of_dict_update)

lemma memo_Nc_keeps: "map_of Nc k = Some v \<Longrightarrow> map_of (memo_Nc bc n Nc) k = Some v"
  by (auto simp: memo_Nc_def map_of_dict_update)

lemma good_turing_entry_ok:
  assumes "Nc_ok (bigramCount c) (fst st)" and "0 < N"
  shows "\<exists>Nc'. good_turing_entry c N st e =
            Inr (Nc', dict_update (pair_key e) (c_star (bigramCount c) (snd e) / of_nat N) (snd st)) \<and>
          Nc_ok (bigramCount c) Nc' \<and> (\<forall>k v. map_of (fst st) k = Some v \<longrightarrow> map_of Nc' k = Some v)"
proof -
  let ?bc = "bigramCount c"
  let ?Nc1 = "memo_Nc ?bc (snd e) (fst st)"
  let ?Nc = "memo_Nc ?bc (snd e + 1) ?Nc1"
  have ok1: "Nc_ok ?bc ?Nc1" by (rule memo_Nc_ok[OF assms(1)])
  have ok: "Nc_ok ?bc ?Nc" by (rule memo_Nc_ok[OF ok1])
  have g1: "dict_get ?Nc (snd e) = Inr (count_values ?bc (snd e))"
    by (rule dict_get_Some, rule memo_Nc_keeps, rule memo_Nc_get[OF assms(1)])
  have g2: "dict_get ?Nc (snd e + 1) = Inr (count_values ?bc (snd e + 1))"
    by (rule dict_get_Some, rule memo_Nc_get[OF ok1])
  have keep: "\<forall>k v. map_of (fst st) k = Some v \<longrightarrow> map_of ?Nc k = Some v"
    by (simp add: memo_Nc_keeps)
  have "good_turing_entry c N st e =
            Inr (?Nc, dict_update (pair_key e) (c_star ?bc (snd e) / of_nat N) (snd st))"
    using assms(2) g1 g2
    by (simp add: good_turing_entry_def Let_def c_star_def py_div_def pair_key_def del: of_nat_mult of_nat_add)
  then show ?thesis using ok keep by blast
qed

lemma foldM_good_turing:
  assumes "0 < N" and "distinct (map pair_key xs)"
  shows "Nc_ok (bigramCount c) Nc \<Longrightarrow>
         \<exists>Nc' bp'. foldM (good_turing_entry c N) (Nc, bp) xs = Inr (Nc', bp') \<and>
           Nc_ok (bigramCount c) Nc' \<and> (\<forall>k v. map_of Nc k = Some v \<longrightarrow> map_of Nc' k = Some v) \<and>
           (\<forall>k. map_of bp' k =
              (case map_of (map (\<lambda>e. (pair_key e, c_star (bigramCount c) (snd e) / of_nat N)) xs) k of
                 Some v \<Rightarrow> Some v | None \<Rightarrow> map_of bp k))"
  using assms(2)
proof (induction xs arbitrary: Nc bp)
  case Nil
  then show ?case by simp
next
  case (Cons x xs)
  let ?val = "\<lambda>e. c_star (bigramCount c) (snd e) / (of_nat N :: rat)"
  let ?bp1 = "dict_update (pair_key x) (?val x) bp"
  from good_turing_entry_ok[of c "(Nc, bp)" N x] Cons.prems(1) assms(1)
  obtain Nc1 where s: "good_turing_entry c N (Nc, bp) x = Inr (Nc1, ?bp1)"
    and ok1: "Nc_ok (bigramCount c) Nc1"
    and k1: "\<And>k v. map_of Nc k = Some v \<Longrightarrow> map_of Nc1 k = Some v"
    by auto
  have d: "distinct (map pair_key xs)" and nx: "pair_key x \<notin> pair_key ` set xs"
    using Cons.prems(2) by auto
  from Cons.IH[OF ok1 d, of ?bp1] obtain Nc' bp' where
    r: "foldM (good_turing_entry c N) (Nc1, ?bp1) xs = Inr (Nc', bp')"
    and ok': "Nc_ok (bigramCount c) Nc'"
    and k': "\<And>k v. map_of Nc1 k = Some v \<Longrightarrow> map_of Nc' k = Some v"
    and m: "\<And>k. map_of bp' k =
              (case map_of (map (\<lambda>e. (pair_key e, ?val e)) xs) k of
                 Some v \<Rightarrow> Some v | None \<Rightarrow> map_of ?bp1 k)"
    by blast
  have none: "map_of (map (\<lambda>e. (pair_key e, ?val e)) xs) (pair_key x) = None"
    using nx by (simp add: map_of_eq_None_iff image_image)
  have "map_of bp' k =
              (case map_of (map (\<lambda>e. (pair_key e, ?val e)) (x # xs)) k of
                 Some v \<Rightarrow> Some v | None \<Rightarrow> map_of bp k)" for k
    using m[of k] none by (auto simp: map_of_dict_update split: option.splits)
  then show ?case using s r ok' k1 k' by simp
qed

lemma bigramCount_count_tokens: "bigramCount (count_tokens c tokens) \<noteq> []"
proof -
  let ?st = "foldl count_token (count_token (c, None) START_OF_SENTENCE) (map Tok tokens)"
  have "snd ?st \<noteq> None"
    by (induction tokens rule: rev_induct) (simp_all add: snd_count_token)
  then obtain q where q: "snd ?st = Some q" by auto
  have i: "incr k d \<noteq> []" for k :: "sym \<times> sym" and d
    using keys_incr[of k d] by auto
  have "count_tokens c tokens = fst (count_token ?st END_OF_SENTENCE)"
    by (simp add: count_tokens_def with_markers_def)
  then show ?thesis using q i by (simp add: count_token_def Let_def)
qed

lemma bigramCount_train: "lines \<noteq> [] \<Longrightarrow> bigramCount (train lines) \<noteq> []"
  by (induction lines rule: rev_induct)
     (simp_all add: train_def count_sentence_def bigramCount_count_tokens)

lemma sum_counts_pos:
  assumes "counts_wf c" and "bigramCount c \<noteq> []"
  shows "0 < sum_list (map snd (bigramCount c))"
proof -
  obtain e where e: "e \<in> set (bigramCount c)" using assms(2) by (cases "bigramCount c") auto
  then have "0 < snd e" using assms(1) by (simp add: counts_wf_def)
  moreover have "snd e \<le> sum_list (map snd (bigramCount c))"
    by (rule member_le_sum_list) (use e in auto)
  ultimately show ?thesis by simp
qed

text \<open>
  Claim C6, amended. For every training corpus of at least one line, with \<open>N\<close> the sum of
  all bigram counts, Good-Turing smoothing builds its table without error; every observed
  bigram of count \<open>c\<close> has the probability \<open>c* / N\<close>, with \<open>c*\<close> as in \<open>c_star\<close>; the
  blank key has \<open>Nc(1) / N\<close>; and the table has no other key.
\<close>

theorem good_turing_table:
  assumes "lines \<noteq> []"
  shows "\<exists>bigramProb. smooth GoodTuring (train lines) = Inr bigramProb \<and>
           (\<forall>e \<in> set (bigramCount (train lines)).
               map_of bigramProb (Some (fst (fst e)), Some (snd (fst e))) =
                 Some (c_star (bigramCount (train lines)) (snd e) /
                       of_nat (sum_list (map snd (bigramCount (train lines)))))) \<and>
           map_of bigramProb (None, None) =
             Some (of_nat (count_values (bigramCount (train lines)) 1) /
                   of_nat (sum_list (map snd (bigramCount (train lines))))) \<and>
           fst ` set bigramProb = insert (None, None) (pair_key ` set (bigramCount (train lines)))"
proof -
  let ?c = "train lines"
  let ?bc = "bigramCount ?c"
  let ?N = "sum_list (map snd ?bc)"
  let ?val = "\<lambda>e. c_star ?bc (snd e) / (of_nat ?N :: rat)"
  let ?Nc0 = "dict_update 1 (count_values ?bc 1) []"
  have wf: "counts_wf ?c" by (rule counts_wf_train)
  have N: "0 < ?N" by (rule sum_counts_pos[OF wf bigramCount_train[OF assms]])
  have d: "distinct (map pair_key ?bc)" using wf by (simp add: counts_wf_def distinct_pair_key)
  have ok0: "Nc_ok ?bc ?Nc0" by (simp add: Nc_ok_def)
  from foldM_good_turing[OF N d ok0, of "[]"] obtain Nc' bp' where
    r: "foldM (good_turing_entry ?c ?N) (?Nc0, []) ?bc = Inr (Nc', bp')"
    and k: "\<And>k v. map_of ?Nc0 k = Some v \<Longrightarrow> map_of Nc' k = Some v"
    and m: "\<And>k. map_of bp' k =
              (case map_of (map (\<lambda>e. (pair_key e, ?val e)) ?bc) k of
                 Some v \<Rightarrow> Some v | None \<Rightarrow> map_of [] k)"
    by blast
  let ?bp = "dict_update (None, None) (of_nat (count_values ?bc 1) / of_nat ?N) bp'"
  have n1: "dict_get Nc' 1 = Inr (count_values ?bc 1)"
    by (rule dict_get_Some, rule k) simp
  have N0: "?N \<noteq> 0" using N by (simp only: neq0_conv)
  have dv: "py_div (count_values ?bc 1) ?N = Inr (of_nat (count_values ?bc 1) / of_nat ?N)"
    unfolding py_div_def using N0 by (simp only: if_False)
  have s: "smooth GoodTuring ?c = Inr ?bp"
    unfolding smooth.simps smooth_good_turing_def Let_def r bind_Inr fst_conv snd_conv n1 dv ..
  have 1: "map_of ?bp (Some (fst (fst e)), Some (snd (fst e))) = Some (?val e)"
    if "e \<in> set ?bc" for e
    using m[of "pair_key e"] map_of_key_val[OF d that, of ?val]
    by (simp add: map_of_dict_update pair_key_def)
  have 2: "map_of ?bp (None, None) = Some (of_nat (count_values ?bc 1) / of_nat ?N)"
    by (simp add: map_of_dict_update)
  have "dom (map_of bp') = pair_key ` set ?bc"
  proof -
    have "dom (map_of bp') = dom (map_of (map (\<lambda>e. (pair_key e, ?val e)) ?bc))"
      using m by (auto simp: dom_def split: option.splits)
    then show ?thesis by (simp add: dom_map_of_conv_image_fst image_image)
  qed
  then have 3: "fst ` set ?bp = insert (None, None) (pair_key ` set ?bc)"
    by (simp add: keys_dict_update dom_map_of_conv_image_fst)
  show ?thesis using s 1 2 3 by blast
qed

theorem good_turing_table_witness:
  "[''The dog runs'', ''the cat''] \<noteq> [] \<and>
   (\<exists>bigramProb. smooth GoodTuring (train [''The dog runs'', ''the cat'']) = Inr bigramProb \<and>
      map_of bigramProb (None, None) =
        Some (of_nat (count_values (bigramCount (train [''The dog runs'', ''the cat''])) 1) /
              of_nat (sum_list (map snd (bigramCount (train [''The dog runs'', ''the cat''])))))) \<and>
   count_values (bigramCount (train [''The dog runs'', ''the cat''])) 1 = 5 \<and>
   sum_list (map snd (bigramCount (train [''The dog runs'', ''the cat'']))) = 7"
proof -
  have h: "[''The dog runs'', ''the cat''] \<noteq> []" by simp
  have v: "count_values (bigramCount (train [''The dog runs'', ''the cat''])) 1 = 5"
    "sum_list (map snd (bigramCount (train [''The dog runs'', ''the cat'']))) = 7"
    by code_simp+
  show ?thesis using good_turing_table[OF h] h v by blast
qed

text \<open>
  Claim C6 as stated fails on the empty training file: no bigram is counted, \<open>N\<close> is 0, the
  loop of lines 150-168 does not run, and line 171 divides \<open>Nc[1] = 0\<close> by \<open>N = 0\<close>.
\<close>

theorem good_turing_counterexample:
  "smooth GoodTuring (train []) = Inl ZeroDivisionError"
  by code_simp

section \<open>bigram.py: tokens are cut at the first underscore\<close>

lemma hd_split_us: "hd (split_us cur t) = rev cur @ takeWhile (\<lambda>ch. ch \<noteq> CHR ''_'') t"
  by (induction t arbitrary: cur) simp_all

lemma word_portion_Tok: "word_portion (Tok t) = Tok (before_underscore t)"
  by (simp add: split_underscore_def hd_split_us before_underscore_def)

lemma map_word_portion:
  "map before_underscore ts = map before_underscore ts' \<Longrightarrow>
   map word_portion (with_markers ts) = map word_portion (with_markers ts')"
proof -
  assume a: "map before_underscore ts = map before_underscore ts'"
  have "map word_portion (map Tok xs) = map Tok (map before_underscore xs)" for xs
    by (simp add: word_portion_Tok del: word_portion.simps)
  then show ?thesis using a by (simp add: with_markers_def del: map_map)
qed

lemma word_portion_idem: "word_portion (word_portion t) = word_portion t"
proof (cases t)
  case (Tok s)
  have "before_underscore (before_underscore s) = before_underscore s"
    by (simp add: before_underscore_def takeWhile_idem)
  then show ?thesis using Tok by (simp only: word_portion_Tok)
qed simp_all

lemma count_token_word_portion: "count_token st (word_portion t) = count_token st t"
  by (simp add: count_token_def word_portion_idem)

lemma foldl_count_token_map:
  "foldl count_token st (map word_portion ts) = foldl count_token st ts"
  by (induction ts arbitrary: st) (simp_all add: count_token_word_portion)

lemma prob_token_word_portion:
  "prob_token sm c bp st (word_portion t) = prob_token sm c bp st t"
  by (simp add: prob_token_def word_portion_idem)

lemma foldM_prob_token_map:
  "foldM (prob_token sm c bp) st (map word_portion ts) = foldM (prob_token sm c bp) st ts"
  by (induction ts arbitrary: st) (simp_all add: prob_token_word_portion split: sum.splits)

lemma count_tokens_cong:
  assumes "map before_underscore ts = map before_underscore ts'"
  shows "count_tokens c ts = count_tokens c ts'"
proof -
  have "foldl count_token (c, None) (with_markers ts) =
        foldl count_token (c, None) (map word_portion (with_markers ts))"
    by (rule foldl_count_token_map[symmetric])
  also have "\<dots> = foldl count_token (c, None) (map word_portion (with_markers ts'))"
    by (simp only: map_word_portion[OF assms])
  also have "\<dots> = foldl count_token (c, None) (with_markers ts')"
    by (rule foldl_count_token_map)
  finally show ?thesis by (simp only: count_tokens_def)
qed

lemma prob_tokens_cong:
  assumes "map before_underscore ts = map before_underscore ts'"
  shows "prob_tokens sm c bp ts = prob_tokens sm c bp ts'"
proof -
  have "foldM (prob_token sm c bp) (1, None) (with_markers ts) =
        foldM (prob_token sm c bp) (1, None) (map word_portion (with_markers ts))"
    by (rule foldM_prob_token_map[symmetric])
  also have "\<dots> = foldM (prob_token sm c bp) (1, None) (map word_portion (with_markers ts'))"
    by (simp only: map_word_portion[OF assms])
  also have "\<dots> = foldM (prob_token sm c bp) (1, None) (with_markers ts')"
    by (rule foldM_prob_token_map)
  finally show ?thesis by (simp only: prob_tokens_def)
qed

lemma train_cong_aux:
  "map words_of lines = map words_of lines' \<Longrightarrow>
   foldl count_sentence c lines = foldl count_sentence c lines'"
proof (induction lines arbitrary: lines' c)
  case Nil
  then show ?case by simp
next
  case (Cons l lines)
  then obtain l' ls' where l': "lines' = l' # ls'" by (cases lines') auto
  have hd: "words_of l = words_of l'" and rest: "map words_of lines = map words_of ls'"
    using Cons.prems l' by simp_all
  have "count_sentence c l = count_sentence c l'"
    unfolding count_sentence_def by (rule count_tokens_cong) (use hd in \<open>simp add: words_of_def\<close>)
  then show ?case using Cons.IH[OF rest, of "count_sentence c l'"] l' by simp
qed

lemma symbols_of_with_markers:
  "map word_portion (with_markers (split (lower sentence))) = symbols_of sentence"
  by (simp add: with_markers_def symbols_of_def word_portion_Tok del: word_portion.simps)

lemma unigram_foldl_count_token:
  "count_of (unigramCount (fst (foldl count_token st ts))) s =
     count_of (unigramCount (fst st)) s + count_list (map word_portion ts) s"
proof (induction ts arbitrary: st)
  case Nil
  show ?case by simp
next
  case (Cons t ts)
  have "count_of (unigramCount (fst (count_token st t))) s =
        count_of (unigramCount (fst st)) s + (if word_portion t = s then 1 else 0)"
    by (auto simp: count_token_def Let_def count_of_incr)
  then show ?case using Cons.IH[of "count_token st t"] by simp
qed

lemma bigram_foldl_count_token:
  "count_of (bigramCount (fst (foldl count_token st ts))) k =
     count_of (bigramCount (fst st)) k + count_list (links (snd st) (map word_portion ts)) k"
proof (induction ts arbitrary: st)
  case Nil
  show ?case by simp
next
  case (Cons t ts)
  have s: "snd (count_token st t) = Some (word_portion t)" by (rule snd_count_token)
  show ?case
  proof (cases "snd st")
    case None
    then have "bigramCount (fst (count_token st t)) = bigramCount (fst st)"
      by (simp add: count_token_def Let_def)
    then show ?thesis using Cons.IH[of "count_token st t"] s None by simp
  next
    case (Some p)
    then have "count_of (bigramCount (fst (count_token st t))) k =
        count_of (bigramCount (fst st)) k + (if (word_portion t, p) = k then 1 else 0)"
      by (auto simp: count_token_def Let_def count_of_incr)
    then show ?thesis using Cons.IH[of "count_token st t"] s Some by simp
  qed
qed

lemma unigram_count_sentence:
  "count_of (unigramCount (count_sentence c sentence)) s =
     count_of (unigramCount c) s + count_list (symbols_of sentence) s"
  unfolding count_sentence_def count_tokens_def
  using unigram_foldl_count_token[of "(c, None)" "with_markers (split (lower sentence))" s]
  by (simp only: symbols_of_with_markers fst_conv)

lemma bigram_count_sentence:
  "count_of (bigramCount (count_sentence c sentence)) k =
     count_of (bigramCount c) k + count_list (links None (symbols_of sentence)) k"
  unfolding count_sentence_def count_tokens_def
  using bigram_foldl_count_token[of "(c, None)" "with_markers (split (lower sentence))" k]
  by (simp only: symbols_of_with_markers fst_conv snd_conv)

lemma count_list_append: "count_list (xs @ ys) k = count_list xs k + count_list ys k"
  by (induction xs) simp_all

lemma unigram_foldl_sentences:
  "count_of (unigramCount (foldl count_sentence c lines)) s =
     count_of (unigramCount c) s + count_list (concat (map symbols_of lines)) s"
  by (induction lines arbitrary: c) (simp_all add: unigram_count_sentence count_list_append)

lemma bigram_foldl_sentences:
  "count_of (bigramCount (foldl count_sentence c lines)) k =
     count_of (bigramCount c) k +
     count_list (concat (map (\<lambda>l. links None (symbols_of l)) lines)) k"
  by (induction lines arbitrary: c) (simp_all add: bigram_count_sentence count_list_append)

lemma foldM_prob_token_links:
  "foldM (prob_token sm c bp) (pr, prev) ts =
     bind (mapM (\<lambda>k. bigram_factor sm c bp (fst k) (snd k)) (links prev (map word_portion ts)))
       (\<lambda>ps. Inr (pr * prod_list ps,
                   if ts = [] then prev else Some (word_portion (last ts))))"
proof (induction ts arbitrary: pr prev)
  case Nil
  show ?case by simp
next
  case (Cons t ts)
  show ?case
  proof (cases prev)
    case None
    have "prob_token sm c bp (pr, prev) t = Inr (pr, Some (word_portion t))"
      using None by (simp add: prob_token_def)
    then show ?thesis using Cons.IH[of pr "Some (word_portion t)"] None by simp
  next
    case (Some p)
    show ?thesis
    proof (cases "bigram_factor sm c bp (word_portion t) p")
      case (Inl e)
      then have "prob_token sm c bp (pr, prev) t = Inl e" using Some by (simp add: prob_token_def)
      then show ?thesis using Some Inl by simp
    next
      case (Inr f)
      then have "prob_token sm c bp (pr, prev) t = Inr (pr * f, Some (word_portion t))"
        using Some by (simp add: prob_token_def)
      then show ?thesis using Cons.IH[of "pr * f" "Some (word_portion t)"] Some Inr
        by (cases "mapM (\<lambda>k. bigram_factor sm c bp (fst k) (snd k))
                     (links (Some (word_portion t)) (map word_portion ts))")
           (simp_all add: mult.assoc)
    qed
  qed
qed

lemma sentence_prob_links:
  "sentence_prob sm c bp sentence =
     bind (mapM (\<lambda>k. bigram_factor sm c bp (fst k) (snd k)) (links None (symbols_of sentence)))
       (\<lambda>ps. Inr (prod_list ps))"
proof -
  let ?ts = "with_markers (split (lower sentence))"
  let ?m = "mapM (\<lambda>k. bigram_factor sm c bp (fst k) (snd k)) (links None (symbols_of sentence))"
  have "foldM (prob_token sm c bp) (1, None) ?ts =
        bind ?m (\<lambda>ps. Inr (1 * prod_list ps, if ?ts = [] then None else Some (word_portion (last ?ts))))"
    using foldM_prob_token_links[of sm c bp 1 None ?ts] by (simp only: symbols_of_with_markers)
  then show ?thesis
    by (cases ?m) (simp_all add: sentence_prob_def prob_tokens_def)
qed

text \<open>
  Claim C10. A token that is not a boundary marker is cut to the substring before its
  first underscore, and the markers are left as they are, at training and in the test
  loop alike. After training, the count of a symbol is the number of its occurrences
  among the symbols of the lines (tokens cut, markers added), and the count of a bigram
  the number of its occurrences among their adjacent pairs; the probability of a test
  sentence is the product of the factors looked up for the adjacent pairs of its
  symbols, or the first error among these lookups. So two corpora whose lines have the
  same cut tokens give the same unigram and bigram counts, and two test sentences with
  the same cut tokens give the same result on any table.
\<close>

theorem underscore_truncation:
  "(\<forall>t. word_portion (Tok t) = Tok (before_underscore t)) \<and>
   word_portion START_OF_SENTENCE = START_OF_SENTENCE \<and>
   word_portion END_OF_SENTENCE = END_OF_SENTENCE \<and>
   count_of (unigramCount (train lines)) s = count_list (concat (map symbols_of lines)) s \<and>
   count_of (bigramCount (train lines)) (s, p) =
     count_list (concat (map (\<lambda>l. links None (symbols_of l)) lines)) (s, p) \<and>
   sentence_prob smoothing_type c bigramProb sentence =
     bind (mapM (\<lambda>k. bigram_factor smoothing_type c bigramProb (fst k) (snd k))
                (links None (symbols_of sentence)))
          (\<lambda>ps. Inr (prod_list ps)) \<and>
   (map words_of lines = map words_of lines' \<longrightarrow> train lines = train lines') \<and>
   (words_of sentence = words_of sentence' \<longrightarrow>
      sentence_prob smoothing_type c bigramProb sentence =
      sentence_prob smoothing_type c bigramProb sentence')"
proof -
  have 1: "train lines = train lines'" if "map words_of lines = map words_of lines'"
    unfolding train_def by (rule train_cong_aux[OF that])
  have 2: "sentence_prob smoothing_type c bigramProb sentence =
      sentence_prob smoothing_type c bigramProb sentence'"
    if "words_of sentence = words_of sentence'"
    unfolding sentence_prob_def by (rule prob_tokens_cong) (use that in \<open>simp add: words_of_def\<close>)
  have 3: "\<forall>t. word_portion (Tok t) = Tok (before_underscore t)"
    by (simp add: word_portion_Tok del: word_portion.simps)
  have 4: "count_of (unigramCount (train lines)) s = count_list (concat (map symbols_of lines)) s"
    unfolding train_def unigram_foldl_sentences by (simp add: empty_counts_def count_of_def)
  have 5: "count_of (bigramCount (train lines)) (s, p) =
     count_list (concat (map (\<lambda>l. links None (symbols_of l)) lines)) (s, p)"
    unfolding train_def bigram_foldl_sentences by (simp add: empty_counts_def count_of_def)
  show ?thesis using 1 2 3 4 5 sentence_prob_links[of smoothing_type c bigramProb sentence]
    by simp
qed

theorem underscore_truncation_witness:
  "map words_of [''the dog_NOUN runs'', ''The dog''] = map words_of [''The dog runs_VERB'', ''the_DET dog_X''] \<and>
   train [''the dog_NOUN runs'', ''The dog''] = train [''The dog runs_VERB'', ''the_DET dog_X''] \<and>
   count_of (unigramCount (train [''the dog_NOUN runs'', ''The dog''])) (Tok ''dog'') =
     count_list (concat (map symbols_of [''the dog_NOUN runs'', ''The dog''])) (Tok ''dog'') \<and>
   count_of (unigramCount (train [''the dog_NOUN runs'', ''The dog''])) (Tok ''dog'') = 2 \<and>
   count_of (unigramCount (train [''the dog_NOUN runs'', ''The dog''])) (Tok ''dog_noun'') = 0 \<and>
   count_of (bigramCount (train [''the dog_NOUN runs'', ''The dog''])) (Tok ''dog'', Tok ''the'') =
     count_list (concat (map (\<lambda>l. links None (symbols_of l)) [''the dog_NOUN runs'', ''The dog''])) (Tok ''dog'', Tok ''the'') \<and>
   count_of (bigramCount (train [''the dog_NOUN runs'', ''The dog''])) (Tok ''dog'', Tok ''the'') = 2 \<and>
   smooth NoSmoothing (train [''the dog_NOUN runs'', ''The dog'']) = Inr
     [((Some (Tok ''the''), Some START_OF_SENTENCE), 1),
      ((Some (Tok ''dog''), Some (Tok ''the'')), 1),
      ((Some (Tok ''runs''), Some (Tok ''dog'')), 1 / 2),
      ((Some END_OF_SENTENCE, Some (Tok ''runs'')), 1),
      ((Some END_OF_SENTENCE, Some (Tok ''dog'')), 1 / 2),
      ((None, None), 0)] \<and>
   words_of ''the dog_N'' = words_of ''The dog'' \<and>
   sentence_prob NoSmoothing (train [''the dog_NOUN runs'', ''The dog''])
     [((Some (Tok ''the''), Some START_OF_SENTENCE), 1),
      ((Some (Tok ''dog''), Some (Tok ''the'')), 1),
      ((Some (Tok ''runs''), Some (Tok ''dog'')), 1 / 2),
      ((Some END_OF_SENTENCE, Some (Tok ''runs'')), 1),
      ((Some END_OF_SENTENCE, Some (Tok ''dog'')), 1 / 2),
      ((None, None), 0)]
     ''the dog_N'' =
     sentence_prob NoSmoothing (train [''the dog_NOUN runs'', ''The dog''])
     [((Some (Tok ''the''), Some START_OF_SENTENCE), 1),
      ((Some (Tok ''dog''), Some (Tok ''the'')), 1),
      ((Some (Tok ''runs''), Some (Tok ''dog'')), 1 / 2),
      ((Some END_OF_SENTENCE, Some (Tok ''runs'')), 1),
      ((Some END_OF_SENTENCE, Some (Tok ''dog'')), 1 / 2),
      ((None, None), 0)]
     ''The dog'' \<and>
   sentence_prob NoSmoothing (train [''the dog_NOUN runs'', ''The dog''])
     [((Some (Tok ''the''), Some START_OF_SENTENCE), 1),
      ((Some (Tok ''dog''), Some (Tok ''the'')), 1),
      ((Some (Tok ''runs''), Some (Tok ''dog'')), 1 / 2),
      ((Some END_OF_SENTENCE, Some (Tok ''runs'')), 1),
      ((Some END_OF_SENTENCE, Some (Tok ''dog'')), 1 / 2),
      ((None, None), 0)]
     ''the dog_N'' = Inr (1 / 2)"
proof -
  have h1: "map words_of [''the dog_NOUN runs'', ''The dog''] = map words_of [''The dog runs_VERB'', ''the_DET dog_X'']"
    by code_simp
  have h2: "words_of ''the dog_N'' = words_of ''The dog''" by code_simp
  note t = underscore_truncation[of "[''the dog_NOUN runs'', ''The dog'']" "Tok ''dog''" "Tok ''the''" NoSmoothing "train [''the dog_NOUN runs'', ''The dog'']" 
     "[((Some (Tok ''the''), Some START_OF_SENTENCE), 1),
      ((Some (Tok ''dog''), Some (Tok ''the'')), 1),
      ((Some (Tok ''runs''), Some (Tok ''dog'')), 1 / 2),
      ((Some END_OF_SENTENCE, Some (Tok ''runs'')), 1),
      ((Some END_OF_SENTENCE, Some (Tok ''dog'')), 1 / 2),
      ((None, None), 0)]"
      "''the dog_N''" "[''The dog runs_VERB'', ''the_DET dog_X'']" "''The dog''"]
  have a: "train [''the dog_NOUN runs'', ''The dog''] = train [''The dog runs_VERB'', ''the_DET dog_X'']" using t h1 by blast
  have b: "count_of (unigramCount (train [''the dog_NOUN runs'', ''The dog''])) (Tok ''dog'') =
     count_list (concat (map symbols_of [''the dog_NOUN runs'', ''The dog''])) (Tok ''dog'')" using t by blast
  have c: "count_of (bigramCount (train [''the dog_NOUN runs'', ''The dog''])) (Tok ''dog'', Tok ''the'') =
     count_list (concat (map (\<lambda>l. links None (symbols_of l)) [''the dog_NOUN runs'', ''The dog''])) (Tok ''dog'', Tok ''the'')"
    using t by blast
  have d: "sentence_prob NoSmoothing (train [''the dog_NOUN runs'', ''The dog''])
     [((Some (Tok ''the''), Some START_OF_SENTENCE), 1),
      ((Some (Tok ''dog''), Some (Tok ''the'')), 1),
      ((Some (Tok ''runs''), Some (Tok ''dog'')), 1 / 2),
      ((Some END_OF_SENTENCE, Some (Tok ''runs'')), 1),
      ((Some END_OF_SENTENCE, Some (Tok ''dog'')), 1 / 2),
      ((None, None), 0)]
     ''the dog_N'' =
     sentence_prob NoSmoothing (train [''the dog_NOUN runs'', ''The dog''])
     [((Some (Tok ''the''), Some START_OF_SENTENCE), 1),
      ((Some (Tok ''dog''), Some (Tok ''the'')), 1),
      ((Some (Tok ''runs''), Some (Tok ''dog'')), 1 / 2),
      ((Some END_OF_SENTENCE, Some (Tok ''runs'')), 1),
      ((Some END_OF_SENTENCE, Some (Tok ''dog'')), 1 / 2),
      ((None, None), 0)]
     ''The dog''" using t h2 by blast
  have v: "count_of (unigramCount (train [''the dog_NOUN runs'', ''The dog''])) (Tok ''dog'') = 2"
    "count_of (unigramCount (train [''the dog_NOUN runs'', ''The dog''])) (Tok ''dog_noun'') = 0"
    "count_of (bigramCount (train [''the dog_NOUN runs'', ''The dog''])) (Tok ''dog'', Tok ''the'') = 2"
    "smooth NoSmoothing (train [''the dog_NOUN runs'', ''The dog'']) = Inr
     [((Some (Tok ''the''), Some START_OF_SENTENCE), 1),
      ((Some (Tok ''dog''), Some (Tok ''the'')), 1),
      ((Some (Tok ''runs''), Some (Tok ''dog'')), 1 / 2),
      ((Some END_OF_SENTENCE, Some (Tok ''runs'')), 1),
      ((Some END_OF_SENTENCE, Some (Tok ''dog'')), 1 / 2),
      ((None, None), 0)]"
    "sentence_prob NoSmoothing (train [''the dog_NOUN runs'', ''The dog''])
     [((Some (Tok ''the''), Some START_OF_SENTENCE), 1),
      ((Some (Tok ''dog''), Some (Tok ''the'')), 1),
      ((Some (Tok ''runs''), Some (Tok ''dog'')), 1 / 2),
      ((Some END_OF_SENTENCE, Some (Tok ''runs'')), 1),
      ((Some END_OF_SENTENCE, Some (Tok ''dog'')), 1 / 2),
      ((None, None), 0)]
     ''the dog_N'' = Inr (1 / 2)"
    by code_simp+
  show ?thesis using h1 h2 a b c d v by (intro conjI)
qed

section \<open>tagging.py: the decoder on small corpora\<close>

text \<open>
  Line 71 stores \<^verbatim>\<open>set(tag)\<close> for the first tag of a word: the set of the characters of
  the tag, not the set holding the tag. Line 70, for a later tag of the same word, adds the
  tag itself.
\<close>

lemma set_of_string_DET: "set_of_string ''DET'' = [''D'', ''E'', ''T'']"
  by code_simp

lemma first_tag_of_word:
  assumes "split_underscore token = [word, tag]" and "map_of (tags m) word = None"
  shows "\<exists>m'. train_token (m, prevTag) token = Inr (m', tag) \<and>
               map_of (tags m') word = Some (set_of_string tag)"
  using assms by (simp add: train_token_def Let_def map_of_dict_update)

lemma later_tag_of_word:
  assumes "split_underscore token = [word, tag]" and "map_of (tags m) word = Some s"
  shows "\<exists>m'. train_token (m, prevTag) token = Inr (m', tag) \<and>
               map_of (tags m') word = Some (set_add tag s)"
  using assms by (simp add: train_token_def Let_def map_of_dict_update)

text \<open>
  Claim C2 fails on the code: after training on the one token \<^verbatim>\<open>The_DET\<close>, the tag set of
  \<^verbatim>\<open>The\<close> is \<^verbatim>\<open>{'D', 'E', 'T'}\<close>; it lacks the observed tag \<^verbatim>\<open>DET\<close> and holds three strings
  never observed as tags.
\<close>

theorem tag_vocabulary_first_tag:
  "tag_vocabulary [''The_DET''] ''The'' = Inr (Some [''D'', ''E'', ''T''])"
  by code_simp

text \<open>
  Claim C1 fails on the code: after training on \<^verbatim>\<open>The_DET dog_NOUN runs_VERB\<close> the tag sets
  hold single characters, no emission \<^verbatim>\<open>(word, character, 'W')\<close> is in the table, every
  step's table stays empty, and line 197 takes \<^verbatim>\<open>max\<close> of an empty dict.
\<close>

theorem decode_minimal_corpus:
  "tagging_main [''The_DET dog_NOUN runs_VERB''] ''The dog runs'' = Inl ValueError"
  by code_simp

text \<open>
  With one-character tags, where \<^verbatim>\<open>set(tag)\<close> happens to be \<^verbatim>\<open>{tag}\<close>, the same corpus
  decodes as claim C1 describes.
\<close>

lemma decode_one_character_tags:
  "tagging_main [''The_D dog_N runs_V''] ''The dog runs'' = Inr ''The_D dog_N runs_V''"
  by code_simp

text \<open>
  A word without a tag set: when the previous table is not empty, the first pass of the
  loop of lines 145-148 raises \<^verbatim>\<open>TypeError\<close>.
\<close>

lemma word_step_unseen:
  assumes "map_of (tags m) word = None" and "last prob \<noteq> []"
  shows "word_step m bigramProb most_common_tag n prob (i, word) = Inl TypeError"
proof -
  obtain e es where "last prob = e # es" using assms(2) by (cases "last prob") auto
  then show ?thesis
    using assms(1) by (simp add: word_step_def unseen_step_def list_getitem_tuple_def)
qed

text \<open>
  Claim C3 fails on the code: after training on \<^verbatim>\<open>a_N\<close>, the test sentence \<^verbatim>\<open>b\<close> has an
  unseen word at position 0, where the previous table is the initial one.
\<close>

theorem decode_unseen_word:
  "tagging_main [''a_N''] ''b'' = Inl TypeError"
  by code_simp

section \<open>viterbi.py: the recurrence and the back trace\<close>

lemma mapM_Inr: "(\<And>x. x \<in> set xs \<Longrightarrow> f x = Inr (g x)) \<Longrightarrow> mapM f xs = Inr (map g xs)"
  by (induction xs) simp_all

lemma foldM_snoc: "foldM f s (xs @ [x]) = bind (foldM f s xs) (\<lambda>s'. f s' x)"
  by (induction xs arbitrary: s) (simp_all add: bind_def split: sum.splits)

lemma takeWhile_first:
  assumes "\<exists>y \<in> set xs. \<not> P y"
  shows "length (takeWhile P xs) < length xs \<and> \<not> P (xs ! length (takeWhile P xs)) \<and>
         (\<forall>j < length (takeWhile P xs). P (xs ! j))"
  using assms
proof (induction xs)
  case Nil
  then show ?case by simp
next
  case (Cons x xs)
  show ?case
  proof (cases "P x")
    case True
    then have "\<exists>y \<in> set xs. \<not> P y" using Cons.prems by auto
    from Cons.IH[OF this] True show ?thesis by (auto simp: less_Suc_eq_0_disj)
  next
    case False
    then show ?thesis by simp
  qed
qed

lemma index_of_mem:
  assumes "x \<in> set xs"
  shows "index_of xs x = Inr (length (takeWhile (\<lambda>y. y \<noteq> x) xs)) \<and>
         length (takeWhile (\<lambda>y. y \<noteq> x) xs) < length xs \<and>
         xs ! length (takeWhile (\<lambda>y. y \<noteq> x) xs) = x"
  using takeWhile_first[of xs "\<lambda>y. y \<noteq> x"] assms by (auto simp: index_of_def)

lemma foldl_max_Max: "foldl max x ys = Max (set (x # ys))"
proof -
  have e: "(\<lambda>y s. max s y) = (max :: 'a::linorder \<Rightarrow> 'a \<Rightarrow> 'a)"
    by (intro ext) (rule max.commute)
  show ?thesis unfolding foldl_conv_fold e Max.set_eq_fold ..
qed

lemma np_max_nonempty: "xs \<noteq> [] \<Longrightarrow> np_max xs = Inr (Max (set xs))"
  by (cases xs) (simp_all add: np_max_def foldl_max_Max del: set_simps)

lemma np_argmax_nonempty: "xs \<noteq> [] \<Longrightarrow> np_argmax xs = Inr (first_max xs)"
  by (cases xs) (simp_all add: np_argmax_def first_max_def foldl_max_Max del: set_simps)

lemma first_max_props:
  assumes "xs \<noteq> []"
  shows "first_max xs < length xs \<and> xs ! first_max xs = Max (set xs) \<and>
         (\<forall>j < first_max xs. xs ! j \<noteq> Max (set xs))"
proof -
  have "Max (set xs) \<in> set xs" using assms by (intro Max_in) auto
  then have "\<exists>y \<in> set xs. \<not> y \<noteq> Max (set xs)" by auto
  from takeWhile_first[OF this] show ?thesis by (simp add: first_max_def)
qed

lemma length_set_column: "length col = length m \<Longrightarrow> length (set_column m t col) = length m"
  by (simp add: set_column_def)

lemma nth_set_column:
  "s < length m \<Longrightarrow> length col = length m \<Longrightarrow> set_column m t col ! s = (m ! s)[t := col ! s]"
  by (simp add: set_column_def)

lemma rows_set_column:
  assumes "\<forall>row \<in> set m. length row = T" and "length col = length m"
  shows "\<forall>row \<in> set (set_column m t col). length row = T"
proof
  fix row assume "row \<in> set (set_column m t col)"
  then obtain s where s: "s < length (set_column m t col)" and r: "row = set_column m t col ! s"
    by (auto simp: in_set_conv_nth)
  have sm: "s < length m" using s assms(2) by (simp add: length_set_column)
  then have "m ! s \<in> set m" by simp
  then show "length row = T" using r nth_set_column[OF sm assms(2)] assms(1) by simp
qed

lemma mapM_map: "(\<And>x. f (h x) = Inr (g (h x))) \<Longrightarrow> mapM f (map h xs) = Inr (map (\<lambda>x. g (h x)) xs)"
  by (induction xs) simp_all

lemma nth_nth_set_column:
  "s < length m \<Longrightarrow> length col = length m \<Longrightarrow> t' < length (m ! s) \<Longrightarrow>
   set_column m t col ! s ! t' = (if t' = t then col ! s else m ! s ! t')"
  by (simp add: nth_set_column nth_list_update)

lemma recurrence_at_cong:
  assumes "recurrence_at A B os N v bt s t"
    and "v' ! s ! t = v ! s ! t" and "bt' ! s ! t = bt ! s ! t"
    and "\<And>s'. s' < N \<Longrightarrow> v' ! s' ! (t - 1) = v ! s' ! (t - 1)"
  shows "recurrence_at A B os N v' bt' s t"
proof -
  have sc: "transition_score A B os v' s t s' = transition_score A B os v s t s'" if "s' < N" for s'
    using assms(4)[OF that] by (simp add: transition_score_def)
  then have im: "transition_score A B os v' s t ` {..<N} = transition_score A B os v s t ` {..<N}"
    by (intro image_cong) auto
  have b: "bt ! s ! t < N" using assms(1) by (simp add: recurrence_at_def)
  have lt: "s' < N" if "s' < bt ! s ! t" for s' using that b by simp
  show ?thesis
    using assms(1) unfolding recurrence_at_def assms(2,3) im
    by (auto simp: sc[OF b] sc[OF lt])
qed

lemma viterbi_step_inv:
  assumes inv: "lattice_inv A B os N k st" and k: "0 < k" "k < length os" and N: "0 < N"
  shows "\<exists>st'. viterbi_step A B os N st k = Inr st' \<and> lattice_inv A B os N (Suc k) st'"
proof -
  let ?v = "fst st" and ?bt = "snd st"
  let ?row = "\<lambda>s. map (transition_score A B os ?v s k) [0..<N]"
  let ?vAB = "map ?row [0..<N]"
  let ?mx = "map (\<lambda>s. Max (set (?row s))) [0..<N]"
  let ?am = "map (\<lambda>s. first_max (?row s)) [0..<N]"
  let ?v' = "set_column ?v k ?mx" and ?bt' = "set_column ?bt k ?am"
  have lv: "length ?v = N" and rv: "\<forall>row \<in> set ?v. length row = length os"
    and lb: "length ?bt = N" and rb: "\<forall>row \<in> set ?bt. length row = length os"
    and init: "\<forall>s < N. ?v ! s ! 0 = A ! 0 ! s * B ! s ! (os ! 0)"
    and rec: "\<And>s t. s < N \<Longrightarrow> 0 < t \<Longrightarrow> t < k \<Longrightarrow> recurrence_at A B os N ?v ?bt s t"
    using inv by (simp_all add: lattice_inv_def)
  have ne: "?row s \<noteq> []" for s using N by simp
  have vab: "map (\<lambda>s. map (\<lambda>s'. ?v ! s' ! (k - 1) * A ! (s' + 1) ! s * B ! s ! (os ! k)) [0..<N]) [0..<N] = ?vAB"
    by (simp add: transition_score_def)
  have vne: "?vAB \<noteq> []" using N by simp
  have "mapM np_max ?vAB = Inr ?mx"
    by (rule mapM_map) (rule np_max_nonempty, rule ne)
  then have mx: "np_max_axis1 ?vAB = Inr ?mx"
    using vne by (simp only: np_max_axis1_def if_False)
  have "mapM np_argmax ?vAB = Inr ?am"
    by (rule mapM_map) (rule np_argmax_nonempty, rule ne)
  then have am: "np_argmax_axis1 ?vAB = Inr ?am"
    using vne by (simp only: np_argmax_axis1_def if_False)
  have step: "viterbi_step A B os N st k = Inr (?v', ?bt')"
    unfolding viterbi_step_def Let_def vab mx am bind_Inr ..
  have lmx: "length ?mx = length ?v" and lam: "length ?am = length ?bt"
    using lv lb by simp_all
  have rowv: "length (?v ! s) = length os" if "s < N" for s
    using rv that lv by simp
  have rowb: "length (?bt ! s) = length os" if "s < N" for s
    using rb that lb by simp
  have v': "?v' ! s ! t = (if t = k then Max (set (?row s)) else ?v ! s ! t)"
    if "s < N" "t < length os" for s t
    using nth_nth_set_column[of s ?v ?mx t k] that lv lmx rowv[OF that(1)] by simp
  have bt': "?bt' ! s ! t = (if t = k then first_max (?row s) else ?bt ! s ! t)"
    if "s < N" "t < length os" for s t
    using nth_nth_set_column[of s ?bt ?am t k] that lb lam rowb[OF that(1)] by simp
  have v_other: "?v' ! s ! t = ?v ! s ! t" if "s < N" "t < length os" "t \<noteq> k" for s t
    using v'[OF that(1,2)] that(3) by (simp only: if_False)
  have v_new: "?v' ! s ! k = Max (set (?row s))" if "s < N" for s
    using v'[OF that k(2)] by (simp only: if_True refl)
  have bt_other: "?bt' ! s ! t = ?bt ! s ! t" if "s < N" "t < length os" "t \<noteq> k" for s t
    using bt'[OF that(1,2)] that(3) by (simp only: if_False)
  have bt_new: "?bt' ! s ! k = first_max (?row s)" if "s < N" for s
    using bt'[OF that k(2)] by (simp only: if_True refl)
  have old: "recurrence_at A B os N ?v' ?bt' s t" if "s < N" "0 < t" "t < k" for s t
  proof (rule recurrence_at_cong[OF rec[OF that]])
    have t: "t < length os" "t \<noteq> k" "t - 1 < length os" "t - 1 \<noteq> k"
      using that k by simp_all
    show "?v' ! s ! t = ?v ! s ! t" by (rule v_other[OF that(1) t(1,2)])
    show "?bt' ! s ! t = ?bt ! s ! t" by (rule bt_other[OF that(1) t(1,2)])
    show "?v' ! s' ! (t - 1) = ?v ! s' ! (t - 1)" if "s' < N" for s'
      by (rule v_other[OF that t(3,4)])
  qed
  have new: "recurrence_at A B os N ?v' ?bt' s k" if "s < N" for s
  proof -
    have k1: "k - 1 < length os" "k - 1 \<noteq> k" using k by simp_all
    have sc: "transition_score A B os ?v' s k s' = transition_score A B os ?v s k s'" if "s' < N" for s'
      unfolding transition_score_def v_other[OF that k1] ..
    have "transition_score A B os ?v' s k ` {..<N} = transition_score A B os ?v s k ` {..<N}"
      by (rule image_cong[OF refl], rule sc) simp
    also have "\<dots> = set (?row s)" by (simp add: atLeast0LessThan)
    finally have im: "transition_score A B os ?v' s k ` {..<N} = set (?row s)" .
    have vk: "?v' ! s ! k = Max (set (?row s))" by (rule v_new[OF that])
    have bk: "?bt' ! s ! k = first_max (?row s)" by (rule bt_new[OF that])
    from first_max_props[OF ne[of s]]
    have p1: "first_max (?row s) < length (?row s)"
      and p2: "?row s ! first_max (?row s) = Max (set (?row s))"
      and p3: "\<forall>j < first_max (?row s). ?row s ! j \<noteq> Max (set (?row s))"
      by blast+
    have nth: "?row s ! j = transition_score A B os ?v s k j" if "j < N" for j
      using that by simp
    have f1: "first_max (?row s) < N" using p1 by (simp only: length_map length_upt diff_zero)
    have f2': "transition_score A B os ?v s k (first_max (?row s)) = Max (set (?row s))"
      using p2 unfolding nth[OF f1] .
    have f3': "transition_score A B os ?v s k j \<noteq> Max (set (?row s))" if "j < first_max (?row s)" for j
    proof -
      have "j < N" using that f1 by simp
      from nth[OF this] p3 that show ?thesis by metis
    qed
    have lt: "j < N" if "j < first_max (?row s)" for j using that f1 by simp
    show ?thesis
      unfolding recurrence_at_def vk bk im
    proof (intro conjI allI impI)
      show "Max (set (?row s)) = Max (set (?row s))" ..
      show "first_max (?row s) < N" by (rule f1)
      show "transition_score A B os ?v' s k (first_max (?row s)) = Max (set (?row s))"
        unfolding sc[OF f1] by (rule f2')
      fix s' assume a: "s' < first_max (?row s)"
      show "transition_score A B os ?v' s k s' \<noteq> Max (set (?row s))"
        unfolding sc[OF lt[OF a]] by (rule f3'[OF a])
    qed
  qed
  have rec': "recurrence_at A B os N ?v' ?bt' s t" if "s < N" "0 < t" "t < Suc k" for s t
    using old[OF that(1,2)] new[OF that(1)] that(3) by (cases "t = k") auto
  have init': "\<forall>s < N. ?v' ! s ! 0 = A ! 0 ! s * B ! s ! (os ! 0)"
  proof (intro allI impI)
    fix s assume s: "s < N"
    have z1: "0 < length os" using k by linarith
    have z2: "0 \<noteq> k" using k by simp
    from v_other[OF s z1 z2] init s show "?v' ! s ! 0 = A ! 0 ! s * B ! s ! (os ! 0)" by simp
  qed
  have "lattice_inv A B os N (Suc k) (?v', ?bt')"
    unfolding lattice_inv_def fst_conv snd_conv
    using length_set_column[OF lmx, of k] length_set_column[OF lam, of k]
      rows_set_column[OF rv lmx, of k] rows_set_column[OF rb lam, of k] lv lb init' rec'
    by auto
  then show ?thesis using step by blast
qed

lemma lattice_init:
  assumes "0 < length os"
  shows "lattice_inv A B os N 1
           (set_column (replicate N (replicate (length os) 0)) 0
              (map (\<lambda>s. A ! 0 ! s * B ! s ! (os ! 0)) [0..<N]),
            replicate N (replicate (length os) 0))"
proof -
  let ?m = "replicate N (replicate (length os) (0::rat))"
  let ?col = "map (\<lambda>s. A ! 0 ! s * B ! s ! (os ! 0)) [0..<N]"
  have l: "length ?col = length ?m" by simp
  have r: "\<forall>row \<in> set ?m. length row = length os" by simp
  have c: "set_column ?m 0 ?col ! s ! 0 = A ! 0 ! s * B ! s ! (os ! 0)" if "s < N" for s
    using nth_nth_set_column[of s ?m ?col 0 0] that assms by simp
  show ?thesis
    unfolding lattice_inv_def fst_conv snd_conv
    using length_set_column[OF l, of 0] rows_set_column[OF r l, of 0] c by simp
qed

lemma lattice_fold:
  assumes "lattice_inv A B os N 1 st0" and "0 < N" and "1 \<le> k"
  shows "k \<le> length os \<longrightarrow>
         (\<exists>st. foldM (viterbi_step A B os N) st0 [1..<k] = Inr st \<and> lattice_inv A B os N k st)"
  using assms(3)
proof (induction k rule: nat_induct_at_least)
  case base
  show ?case using assms(1) by simp
next
  case (Suc k)
  show ?case
  proof
    assume le: "Suc k \<le> length os"
    then obtain st where f: "foldM (viterbi_step A B os N) st0 [1..<k] = Inr st"
      and i: "lattice_inv A B os N k st" using Suc.IH by auto
    have k: "0 < k" "k < length os" using Suc.hyps le by simp_all
    from viterbi_step_inv[OF i k assms(2)] obtain st' where
      s: "viterbi_step A B os N st k = Inr st'" and i': "lattice_inv A B os N (Suc k) st'" by blast
    have "[1..<Suc k] = [1..<k] @ [k]" using Suc.hyps by simp
    then have "foldM (viterbi_step A B os N) st0 [1..<Suc k] = Inr st'"
      using f s by (simp only: foldM_snoc bind_Inr)
    then show "\<exists>st. foldM (viterbi_step A B os N) st0 [1..<Suc k] = Inr st \<and>
                  lattice_inv A B os N (Suc k) st" using i' by blast
  qed
qed

lemma viterbi_lattice_inv:
  assumes "0 < length os" and "0 < N"
  shows "\<exists>vbt. viterbi_lattice A B os N = Inr vbt \<and> lattice_inv A B os N (length os) vbt"
proof -
  have "1 \<le> length os" using assms(1) by linarith
  from lattice_fold[OF lattice_init[OF assms(1)] assms(2) this, of A B]
  show ?thesis using assms(1) by (simp add: viterbi_lattice_def Let_def)
qed

lemma length_back_path: "length (back_path bt s t) = Suc t"
  by (induction t arbitrary: s) simp_all

lemma last_back_path: "back_path bt s t ! t = s"
  by (cases t) (simp_all add: nth_append length_back_path)

lemma step_back_path:
  "0 < t' \<Longrightarrow> t' \<le> t \<Longrightarrow> back_path bt s t ! (t' - 1) = bt ! (back_path bt s t ! t') ! t'"
proof (induction t arbitrary: s)
  case 0
  then show ?case by simp
next
  case (Suc t)
  show ?case
  proof (cases "t' = Suc t")
    case True
    then show ?thesis
      using last_back_path[of bt "bt ! s ! Suc t" t] by (simp add: nth_append length_back_path)
  next
    case False
    then have "t' \<le> t" using Suc.prems by simp
    have lt: "t' - 1 < Suc t" "t' < Suc t" using \<open>t' \<le> t\<close> by simp_all
    from Suc.IH[OF Suc.prems(1) \<open>t' \<le> t\<close>, of "bt ! s ! Suc t"] lt
    show ?thesis by (simp add: nth_append length_back_path)
  qed
qed

lemma join_words_snoc: "ls \<noteq> [] \<Longrightarrow> join_words (ls @ [l]) = join_words ls @ '' '' @ l"
  by (induction ls rule: join_words.induct) simp_all

lemma labels_snoc:
  "length ws = length path \<Longrightarrow>
   labels (ws @ [w]) tag_list (path @ [s]) = labels ws tag_list path @ [w @ ''_'' @ tag_list ! s]"
  by (simp add: labels_def)

lemma trace_loop:
  assumes "k < length words"
  shows "snd (foldl (trace_step tag_list words bt)
                (s, words ! k @ ''_'' @ tag_list ! s @ rest) (rev [1..<Suc k])) =
         join_words (labels (take (Suc k) words) tag_list (back_path bt s k)) @ rest"
  using assms
proof (induction k arbitrary: s rest)
  case 0
  then have "take (Suc 0) words = [words ! 0]" by (cases words) simp_all
  then show ?case by (simp add: labels_def)
next
  case (Suc k)
  let ?s' = "bt ! s ! Suc k"
  let ?rest' = "'' '' @ words ! Suc k @ ''_'' @ tag_list ! s @ rest"
  have k: "k < length words" using Suc.prems by simp
  have r: "rev [1..<Suc (Suc k)] = Suc k # rev [1..<Suc k]" by simp
  have st: "trace_step tag_list words bt (s, words ! Suc k @ ''_'' @ tag_list ! s @ rest) (Suc k) =
            (?s', words ! k @ ''_'' @ tag_list ! ?s' @ ?rest')"
    by (simp add: trace_step_def Let_def)
  have tk: "take (Suc (Suc k)) words = take (Suc k) words @ [words ! Suc k]"
    using Suc.prems by (simp add: take_Suc_conv_app_nth)
  have len: "length (take (Suc k) words) = length (back_path bt ?s' k)"
    using k by (simp add: length_back_path)
  have ne: "labels (take (Suc k) words) tag_list (back_path bt ?s' k) \<noteq> []"
  proof -
    have "length (labels (take (Suc k) words) tag_list (back_path bt ?s' k)) = Suc k"
      using k by (simp add: labels_def length_back_path)
    then show ?thesis by auto
  qed
  have "snd (foldl (trace_step tag_list words bt)
                (s, words ! Suc k @ ''_'' @ tag_list ! s @ rest) (rev [1..<Suc (Suc k)])) =
        join_words (labels (take (Suc k) words) tag_list (back_path bt ?s' k)) @ ?rest'"
    unfolding r foldl_Cons st by (rule Suc.IH[OF k])
  also have "\<dots> = join_words (labels (take (Suc (Suc k)) words) tag_list (back_path bt s (Suc k))) @ rest"
    unfolding tk back_path.simps labels_snoc[OF len] join_words_snoc[OF ne] by simp
  finally show ?case .
qed

lemma observation_indices:
  assumes "set words \<subseteq> set observations"
  shows "\<exists>os. mapM (index_of observations) words = Inr os \<and> length os = length words \<and>
           (\<forall>t < length os. os ! t < length observations \<and> observations ! (os ! t) = words ! t)"
proof -
  let ?g = "\<lambda>x. length (takeWhile (\<lambda>y. y \<noteq> x) observations)"
  have m: "mapM (index_of observations) words = Inr (map ?g words)"
  proof (rule mapM_Inr)
    fix x assume "x \<in> set words"
    then have "x \<in> set observations" using assms by blast
    then show "index_of observations x = Inr (?g x)" by (simp add: index_of_def)
  qed
  have p: "map ?g words ! t < length observations \<and> observations ! (map ?g words ! t) = words ! t"
    if "t < length (map ?g words)" for t
  proof -
    have t: "t < length words" using that by simp
    then have "words ! t \<in> set observations" using assms nth_mem by blast
    from index_of_mem[OF this] show ?thesis unfolding nth_map[OF t] by blast
  qed
  have "\<forall>t < length (map ?g words).
          map ?g words ! t < length observations \<and> observations ! (map ?g words ! t) = words ! t"
    using p by blast
  with m length_map[of ?g words] show ?thesis by blast
qed

lemma last_column:
  assumes "length v = N"
  shows "set (map (\<lambda>row. row ! t) v) = (\<lambda>s. v ! s ! t) ` {..<N}"
proof -
  have e: "map (\<lambda>row. row ! t) v = map (\<lambda>s. v ! s ! t) [0..<N]"
    unfolding assms[symmetric] by (rule nth_equalityI) simp_all
  show ?thesis unfolding e by (simp add: atLeast0LessThan)
qed

text \<open>
  Claim C9. For a transition matrix \<open>A\<close> of shape \<open>(N + 1) \<times> N\<close>, an emission matrix \<open>B\<close>
  of shape \<open>N \<times> M\<close>, \<open>N\<close> tags (\<open>N\<close> at least 1) and a sentence of \<open>T \<ge> 1\<close> words that all
  are observations, the script runs without error; \<open>os\<close> holds the indices of the words;
  \<open>v[s][0] = A[0][s] * B[s][os[0]]\<close>; for \<open>t\<close> from 1 on, \<open>v[s][t]\<close> is the maximum over
  \<open>s'\<close> of \<open>v[s'][t - 1] * A[s' + 1][s] * B[s][os[t]]\<close> and \<open>bt[s][t]\<close> is the first \<open>s'\<close>
  that attains it; the printed score is the maximum of the last column, \<open>best\<close> is the
  first state that attains it, and the printed sequence labels the words, in order, with
  the \<open>T\<close> states found by following \<open>bt\<close> back from \<open>best\<close>.
\<close>

theorem viterbi_decodes:
  assumes "length A = Suc N" and "\<forall>row \<in> set A. length row = N"
    and "length B = N" and "\<forall>row \<in> set B. length row = length observations"
    and "length tag_list = N" and "0 < N"
    and "split sentence \<noteq> []" and "set (split sentence) \<subseteq> set observations"
  shows "\<exists>os v bt best.
           mapM (index_of observations) (split sentence) = Inr os \<and>
           length os = length (split sentence) \<and>
           (\<forall>t < length os. os ! t < length observations \<and>
                             observations ! (os ! t) = split sentence ! t) \<and>
           viterbi_lattice A B os N = Inr (v, bt) \<and>
           (\<forall>s < N. v ! s ! 0 = A ! 0 ! s * B ! s ! (os ! 0)) \<and>
           (\<forall>s < N. \<forall>t. 0 < t \<and> t < length os \<longrightarrow>
              v ! s ! t = Max ((\<lambda>s'. v ! s' ! (t - 1) * A ! (s' + 1) ! s * B ! s ! (os ! t)) ` {..<N}) \<and>
              bt ! s ! t < N \<and>
              v ! (bt ! s ! t) ! (t - 1) * A ! (bt ! s ! t + 1) ! s * B ! s ! (os ! t) = v ! s ! t \<and>
              (\<forall>s' < bt ! s ! t.
                  v ! s' ! (t - 1) * A ! (s' + 1) ! s * B ! s ! (os ! t) \<noteq> v ! s ! t)) \<and>
           best < N \<and>
           v ! best ! (length os - 1) = Max ((\<lambda>s. v ! s ! (length os - 1)) ` {..<N}) \<and>
           (\<forall>s < best. v ! s ! (length os - 1) \<noteq> v ! best ! (length os - 1)) \<and>
           length (back_path bt best (length os - 1)) = length os \<and>
           viterbi A B tag_list observations sentence =
             Inr (Max ((\<lambda>s. v ! s ! (length os - 1)) ` {..<N}),
                  join_words (labels (split sentence) tag_list (back_path bt best (length os - 1))))"
proof -
  let ?words = "split sentence"
  from observation_indices[OF assms(8)] obtain os where
    os: "mapM (index_of observations) ?words = Inr os" and len: "length os = length ?words"
    and inv: "\<forall>t < length os. os ! t < length observations \<and> observations ! (os ! t) = ?words ! t"
    by blast
  let ?T = "length os"
  have T: "0 < ?T" using assms(7) len by simp
  from viterbi_lattice_inv[OF T assms(6), of A B] obtain v bt where
    lat: "viterbi_lattice A B os N = Inr (v, bt)" and li: "lattice_inv A B os N ?T (v, bt)"
    by force
  have lv: "length v = N"
    and init: "\<forall>s < N. v ! s ! 0 = A ! 0 ! s * B ! s ! (os ! 0)"
    and rec: "\<And>s t. s < N \<Longrightarrow> 0 < t \<Longrightarrow> t < ?T \<Longrightarrow> recurrence_at A B os N v bt s t"
    using li by (simp_all add: lattice_inv_def)
  have rec': "\<forall>s < N. \<forall>t. 0 < t \<and> t < length os \<longrightarrow>
              v ! s ! t = Max ((\<lambda>s'. v ! s' ! (t - 1) * A ! (s' + 1) ! s * B ! s ! (os ! t)) ` {..<N}) \<and>
              bt ! s ! t < N \<and>
              v ! (bt ! s ! t) ! (t - 1) * A ! (bt ! s ! t + 1) ! s * B ! s ! (os ! t) = v ! s ! t \<and>
              (\<forall>s' < bt ! s ! t.
                  v ! s' ! (t - 1) * A ! (s' + 1) ! s * B ! s ! (os ! t) \<noteq> v ! s ! t)"
  proof (intro allI impI)
    fix s t assume "s < N" and "0 < t \<and> t < length os"
    then have "recurrence_at A B os N v bt s t" using rec by blast
    then show "v ! s ! t = Max ((\<lambda>s'. v ! s' ! (t - 1) * A ! (s' + 1) ! s * B ! s ! (os ! t)) ` {..<N}) \<and>
              bt ! s ! t < N \<and>
              v ! (bt ! s ! t) ! (t - 1) * A ! (bt ! s ! t + 1) ! s * B ! s ! (os ! t) = v ! s ! t \<and>
              (\<forall>s' < bt ! s ! t.
                  v ! s' ! (t - 1) * A ! (s' + 1) ! s * B ! s ! (os ! t) \<noteq> v ! s ! t)"
      unfolding recurrence_at_def transition_score_def .
  qed
  let ?col = "map (\<lambda>row. row ! (?T - 1)) v"
  let ?best = "first_max ?col"
  have cne: "?col \<noteq> []" using lv assms(6) by auto
  have cset: "set ?col = (\<lambda>s. v ! s ! (?T - 1)) ` {..<N}" by (rule last_column[OF lv])
  from first_max_props[OF cne]
  have b1: "?best < length ?col" and b2: "?col ! ?best = Max (set ?col)"
    and b3: "\<forall>j < ?best. ?col ! j \<noteq> Max (set ?col)" by blast+
  have bN: "?best < N" using b1 lv by simp
  have nth: "?col ! j = v ! j ! (?T - 1)" if "j < N" for j using that lv by simp
  have bmax: "v ! ?best ! (?T - 1) = Max ((\<lambda>s. v ! s ! (?T - 1)) ` {..<N})"
    using b2 unfolding nth[OF bN] cset .
  have bfirst: "\<forall>s < ?best. v ! s ! (?T - 1) \<noteq> v ! ?best ! (?T - 1)"
  proof (intro allI impI)
    fix s assume s: "s < ?best"
    then have sN: "s < N" using bN by simp
    from b3 s have "?col ! s \<noteq> ?col ! ?best" unfolding b2 by blast
    then show "v ! s ! (?T - 1) \<noteq> v ! ?best ! (?T - 1)" unfolding nth[OF sN] nth[OF bN] .
  qed
  have k: "?T - 1 < length ?words" using T len by simp
  have lw: "last ?words = ?words ! (?T - 1)" using assms(7) len by (simp add: last_conv_nth)
  have ST: "Suc (?T - 1) = ?T" using T by simp
  have tk: "take ?T ?words = ?words" using len by simp
  have out: "snd (foldl (trace_step tag_list ?words bt)
                (?best, last ?words @ ''_'' @ tag_list ! ?best) (rev [1..<?T])) =
         join_words (labels ?words tag_list (back_path bt ?best (?T - 1)))"
    using trace_loop[OF k, of tag_list bt ?best "[]"] unfolding lw ST tk by simp
  have vit: "viterbi A B tag_list observations sentence =
             Inr (Max ((\<lambda>s. v ! s ! (?T - 1)) ` {..<N}),
                  join_words (labels ?words tag_list (back_path bt ?best (?T - 1))))"
    unfolding viterbi_def Let_def os bind_Inr assms(5) lat fst_conv snd_conv
      np_max_nonempty[OF cne] np_argmax_nonempty[OF cne] out cset ..
  have lp: "length (back_path bt ?best (?T - 1)) = ?T"
    using T by (simp add: length_back_path)
  show ?thesis
    by (intro exI conjI)
       (rule os, rule len, rule inv, rule lat, rule init, rule rec', rule bN, rule bmax,
        rule bfirst, rule lp, rule vit)
qed

theorem viterbi_decodes_witness:
  "length [[6 / 10, 4 / 10], [7 / 10, 3 / 10], [4 / 10, 6 / 10 :: rat]] = Suc 2 \<and>
   map length [[6 / 10, 4 / 10], [7 / 10, 3 / 10], [4 / 10, 6 / 10 :: rat]] = [2, 2, 2] \<and>
   length [[9 / 10, 1 / 10], [2 / 10, 8 / 10 :: rat]] = 2 \<and>
   map length [[9 / 10, 1 / 10], [2 / 10, 8 / 10 :: rat]] = [length [''x'', ''y''], length [''x'', ''y'']] \<and>
   length [''A'', ''B''] = 2 \<and> (0::nat) < 2 \<and>
   split ''x y'' \<noteq> [] \<and> set (split ''x y'') \<subseteq> set [''x'', ''y''] \<and>
   (\<exists>os v bt best.
      viterbi_lattice [[6 / 10, 4 / 10], [7 / 10, 3 / 10], [4 / 10, 6 / 10]]
        [[9 / 10, 1 / 10], [2 / 10, 8 / 10]] os 2 = Inr (v, bt) \<and>
      best < 2 \<and>
      viterbi [[6 / 10, 4 / 10], [7 / 10, 3 / 10], [4 / 10, 6 / 10]]
        [[9 / 10, 1 / 10], [2 / 10, 8 / 10]] [''A'', ''B''] [''x'', ''y''] ''x y'' =
        Inr (Max ((\<lambda>s. v ! s ! (length os - 1)) ` {..<2}),
             join_words (labels (split ''x y'') [''A'', ''B''] (back_path bt best (length os - 1))))) \<and>
   viterbi [[6 / 10, 4 / 10], [7 / 10, 3 / 10], [4 / 10, 6 / 10]]
     [[9 / 10, 1 / 10], [2 / 10, 8 / 10]] [''A'', ''B''] [''x'', ''y''] ''x y'' =
     Inr (81 / 625, ''x_A y_B'')"
proof -
  have h1: "length [[6 / 10, 4 / 10], [7 / 10, 3 / 10], [4 / 10, 6 / 10 :: rat]] = Suc 2" by simp
  have h2: "\<forall>row \<in> set [[6 / 10, 4 / 10], [7 / 10, 3 / 10], [4 / 10, 6 / 10 :: rat]]. length row = 2"
    by simp
  have h3: "length [[9 / 10, 1 / 10], [2 / 10, 8 / 10 :: rat]] = 2" by simp
  have h4: "\<forall>row \<in> set [[9 / 10, 1 / 10], [2 / 10, 8 / 10 :: rat]]. length row = length [''x'', ''y'']"
    by simp
  have h5: "length [''A'', ''B''] = 2" by simp
  have h6: "(0::nat) < 2" by simp
  have h7: "split ''x y'' \<noteq> []" by code_simp
  have h8: "set (split ''x y'') \<subseteq> set [''x'', ''y'']" by code_simp
  have e: "viterbi [[6 / 10, 4 / 10], [7 / 10, 3 / 10], [4 / 10, 6 / 10]]
     [[9 / 10, 1 / 10], [2 / 10, 8 / 10]] [''A'', ''B''] [''x'', ''y''] ''x y'' =
     Inr (81 / 625, ''x_A y_B'')" by code_simp
  from viterbi_decodes[OF h1 h2 h3 h4 h5 h6 h7 h8]
  have "\<exists>os v bt best.
      viterbi_lattice [[6 / 10, 4 / 10], [7 / 10, 3 / 10], [4 / 10, 6 / 10]]
        [[9 / 10, 1 / 10], [2 / 10, 8 / 10]] os 2 = Inr (v, bt) \<and>
      best < 2 \<and>
      viterbi [[6 / 10, 4 / 10], [7 / 10, 3 / 10], [4 / 10, 6 / 10]]
        [[9 / 10, 1 / 10], [2 / 10, 8 / 10]] [''A'', ''B''] [''x'', ''y''] ''x y'' =
        Inr (Max ((\<lambda>s. v ! s ! (length os - 1)) ` {..<2}),
             join_words (labels (split ''x y'') [''A'', ''B''] (back_path bt best (length os - 1))))"
    by blast
  moreover have "map length [[6 / 10, 4 / 10], [7 / 10, 3 / 10], [4 / 10, 6 / 10 :: rat]] = [2, 2, 2]"
    and "map length [[9 / 10, 1 / 10], [2 / 10, 8 / 10 :: rat]] = [length [''x'', ''y''], length [''x'', ''y'']]"
    by simp_all
  ultimately show ?thesis using h1 h3 h5 h6 h7 h8 e by (intro conjI)
qed

end
